theory Spec2Isabelle
  imports Main "HOL-Library.Monad_Syntax" "HOL-Library.Multiset"
    "HOL-Library.Char_ord" "HOL-Library.List_Lexorder" "HOL-Library.Sublist"
begin

section \<open>The ranking store of the leaderboard backend (backend/index.go)\<close>

text \<open>
  Go's \<open>int\<close> is modelled as \<open>int\<close>: every quantity computed below is bounded by the
  number of users or by a rating, so no operation wraps. User ids and slice positions,
  which the code only ever produces from \<open>range\<close> indices and \<open>len\<close>, are \<open>nat\<close>.
  A run-time panic (index out of range) is the value \<open>None\<close>; the mutex \<open>bucketMu\<close>
  and the atomics are transparent in this sequential model, and the wall-clock field
  \<open>lastUpdate\<close> is left out. Strings are byte strings, compared bytewise as Go does.
\<close>

subsection \<open>Constants and data\<close>

abbreviation minRating :: int where "minRating \<equiv> 100"
abbreviation maxRating :: int where "maxRating \<equiv> 5000"
abbreviation ratingRange :: nat where "ratingRange \<equiv> 4901"

record User =
  ID :: nat
  Username :: string

record SeedUser =
  Username :: string
  Rating :: int

record UsernameIndex =
  UsernameLower :: string
  ID :: nat

record LeaderboardEntry =
  Rank :: int
  Username :: string
  Rating :: int

record Store =
  users :: "User list"
  ratings :: "int list"
  usernameLower :: "string list"
  usernameIndex :: "UsernameIndex list"
  ratingCounts :: "int list"
  totalUsers :: nat
  ratingBuckets :: "nat list list"
  bucketIndex :: "nat list"
  snapshot :: "nat list"

record LeaderboardResponse =
  TotalUsers :: int
  Page :: int
  PageSize :: int
  TotalPages :: int
  Entries :: "LeaderboardEntry list"

record SearchResponse =
  Query :: string
  Count :: int
  Total :: int
  Page :: int
  PageSize :: int
  TotalPages :: int
  Results :: "LeaderboardEntry list"

subsection \<open>Checked slice access\<close>

definition at :: "'a list \<Rightarrow> nat \<Rightarrow> 'a option" where
  "at xs i = (if i < length xs then Some (xs ! i) else None)"

definition ati :: "'a list \<Rightarrow> int \<Rightarrow> 'a option" where
  "ati xs i = (if 0 \<le> i \<and> i < int (length xs) then Some (xs ! nat i) else None)"

definition put :: "'a list \<Rightarrow> nat \<Rightarrow> 'a \<Rightarrow> 'a list option" where
  "put xs i v = (if i < length xs then Some (xs[i := v]) else None)"

definition puti :: "'a list \<Rightarrow> int \<Rightarrow> 'a \<Rightarrow> 'a list option" where
  "puti xs i v = (if 0 \<le> i \<and> i < int (length xs) then Some (xs[nat i := v]) else None)"

subsection \<open>clampRating, calcTotalPages, clampPage\<close>

definition clampRating :: "int \<Rightarrow> int" where
  "clampRating v = (if v < minRating then minRating else if v > maxRating then maxRating else v)"

definition calcTotalPages :: "int \<Rightarrow> int \<Rightarrow> int" where
  "calcTotalPages totl limit =
     (if totl \<le> 0 \<or> limit \<le> 0 then 0 else (totl + limit - 1) div limit)"

definition clampPage :: "int \<Rightarrow> int \<Rightarrow> int" where
  "clampPage page totalPages =
     (let page1 = (if page < 1 then 1 else page)
      in if totalPages > 0 \<and> page1 > totalPages then totalPages else page1)"

subsection \<open>Library functions: strings.TrimSpace, strings.ToLower, sort.Slice, sort.Search\<close>

text \<open>
  Strings are UTF-8 byte strings, as in Go. \<open>strings.TrimSpace\<close> removes leading and
  trailing white space as Unicode defines it (\<open>unicode.IsSpace\<close>): the six ASCII
  characters tab, line feed, vertical tab, form feed, carriage return and space, and the
  code points U+0085, U+00A0, U+1680, U+2000 to U+200A, U+2028, U+2029, U+202F, U+205F
  and U+3000. \<open>whiteSpace\<close> lists their UTF-8 encodings. Decoding forwards, the first rune
  of a string is white space exactly when the string starts with one of these encodings;
  decoding backwards (\<open>DecodeLastRuneInString\<close>), the last rune is white space exactly
  when the string ends with one. \<open>spaceWidth\<close> and \<open>spaceWidthLast\<close> give the width of
  that rune (0 when it is not white space); \<open>trimLeft\<close> and \<open>trimRight\<close> are the two
  loops of \<open>TrimLeftFunc\<close> and \<open>TrimRightFunc\<close>, which stop at the end of the string.
\<close>

definition whiteSpace :: "string list" where
  "whiteSpace =
     [[CHR 0x09], [CHR 0x0A], [CHR 0x0B], [CHR 0x0C], [CHR 0x0D], [CHR 0x20],
      [CHR 0xC2, CHR 0x85], [CHR 0xC2, CHR 0xA0],
      [CHR 0xE1, CHR 0x9A, CHR 0x80],
      [CHR 0xE2, CHR 0x80, CHR 0x80], [CHR 0xE2, CHR 0x80, CHR 0x81],
      [CHR 0xE2, CHR 0x80, CHR 0x82], [CHR 0xE2, CHR 0x80, CHR 0x83],
      [CHR 0xE2, CHR 0x80, CHR 0x84], [CHR 0xE2, CHR 0x80, CHR 0x85],
      [CHR 0xE2, CHR 0x80, CHR 0x86], [CHR 0xE2, CHR 0x80, CHR 0x87],
      [CHR 0xE2, CHR 0x80, CHR 0x88], [CHR 0xE2, CHR 0x80, CHR 0x89],
      [CHR 0xE2, CHR 0x80, CHR 0x8A],
      [CHR 0xE2, CHR 0x80, CHR 0xA8], [CHR 0xE2, CHR 0x80, CHR 0xA9],
      [CHR 0xE2, CHR 0x80, CHR 0xAF],
      [CHR 0xE2, CHR 0x81, CHR 0x9F],
      [CHR 0xE3, CHR 0x80, CHR 0x80]]"

definition spaceWidth :: "string \<Rightarrow> nat" where
  "spaceWidth str =
     (case find (\<lambda>w. prefix w str) whiteSpace of None \<Rightarrow> 0 | Some w \<Rightarrow> length w)"

definition spaceWidthLast :: "string \<Rightarrow> nat" where
  "spaceWidthLast str =
     (case find (\<lambda>w. suffix w str) whiteSpace of None \<Rightarrow> 0 | Some w \<Rightarrow> length w)"

function trimLeft :: "string \<Rightarrow> string" where
  "trimLeft str =
     (if str = [] then []
      else if spaceWidth str = 0 then str
      else trimLeft (drop (spaceWidth str) str))"
  by pat_completeness auto
termination
  by (relation "measure length") auto

function trimRight :: "string \<Rightarrow> string" where
  "trimRight str =
     (if str = [] then []
      else if spaceWidthLast str = 0 then str
      else trimRight (take (length str - spaceWidthLast str) str))"
  by pat_completeness auto
termination
  by (relation "measure length") auto

definition strings_TrimSpace :: "string \<Rightarrow> string" where
  "strings_TrimSpace str = trimRight (trimLeft str)"

text \<open>
  \<open>strings.ToLower\<close> is modelled on ASCII letters, \<open>A\<close>..\<open>Z\<close> to \<open>a\<close>..\<open>z\<close>, which is what
  Go computes for ASCII strings; other bytes are kept. (Go also lowercases non-ASCII
  letters and replaces invalid UTF-8 by U+FFFD; no property below depends on the
  lowercase form of a non-ASCII name, only on the stored \<open>usernameLower\<close> values.)
\<close>

definition toLowerByte :: "char \<Rightarrow> char" where
  "toLowerByte c =
     (if CHR ''A'' \<le> c \<and> c \<le> CHR ''Z'' then char_of (of_char c + (32 :: nat)) else c)"

definition strings_ToLower :: "string \<Rightarrow> string" where
  "strings_ToLower str = map toLowerByte str"

text \<open>
  \<open>sort.Slice\<close> is modelled by the insertion sort that the library runs on short
  slices (\<open>insertionSortLessFunc\<close>): the element at position \<open>i\<close> sinks leftwards
  while it is less than its left neighbour. The sorted part is kept reversed, so that
  the walk from position \<open>i\<close> downwards is a walk from the head. Like the library
  routine it never compares for equality, so elements that \<open>less\<close> does not separate
  keep the order they arrived in. On slices of more than 12 elements the library switches
  to pattern-defeating quicksort, whose result is again a permutation sorted with respect
  to \<open>less\<close> but may order such ties differently; the properties proved of the model
  (\<open>mset_sort_Slice\<close>, \<open>sorted_sort_Slice\<close>) are the ones every such sort has.
\<close>

fun sink :: "('a \<Rightarrow> 'a \<Rightarrow> bool) \<Rightarrow> 'a \<Rightarrow> 'a list \<Rightarrow> 'a list" where
  "sink lessf x [] = [x]"
| "sink lessf x (y # rpre) = (if lessf x y then y # sink lessf x rpre else x # y # rpre)"

definition insertionSortLess :: "('a \<Rightarrow> 'a \<Rightarrow> bool) \<Rightarrow> 'a list \<Rightarrow> 'a list" where
  "insertionSortLess lessf xs = rev (foldl (\<lambda>rpre x. sink lessf x rpre) [] xs)"

definition sort_Slice :: "('a \<Rightarrow> 'a \<Rightarrow> bool) \<Rightarrow> 'a list \<Rightarrow> 'a list" where
  "sort_Slice lessf xs = insertionSortLess lessf xs"

text \<open>
  \<open>sort.Search n f\<close>: binary search for the least index in \<open>[0, n)\<close> at which \<open>f\<close>
  holds, \<open>n\<close> if there is none. It probes \<open>f\<close> only at \<open>h\<close> with \<open>i \<le> h < j \<le> n\<close>.
\<close>

function sort_Search_loop :: "(nat \<Rightarrow> bool) \<Rightarrow> nat \<Rightarrow> nat \<Rightarrow> nat" where
  "sort_Search_loop f i j =
     (if i < j
      then (let h = (i + j) div 2
            in if \<not> f h then sort_Search_loop f (h + 1) j else sort_Search_loop f i h)
      else i)"
  by pat_completeness auto
termination
  by (relation "measure (\<lambda>(f, i, j). j - i)") auto

declare sort_Search_loop.simps [simp del]

definition sort_Search :: "nat \<Rightarrow> (nat \<Rightarrow> bool) \<Rightarrow> nat" where
  "sort_Search n f = sort_Search_loop f 0 n"

subsection \<open>NewStore\<close>

definition emptyStore :: "nat \<Rightarrow> Store" where
  "emptyStore n =
     \<lparr> users = replicate n \<lparr> User.ID = 0, User.Username = [] \<rparr>,
       ratings = replicate n 0,
       usernameLower = replicate n [],
       usernameIndex = replicate n \<lparr> UsernameLower = [], UsernameIndex.ID = 0 \<rparr>,
       ratingCounts = replicate ratingRange 0,
       totalUsers = n,
       ratingBuckets = replicate ratingRange [],
       bucketIndex = replicate n 0,
       snapshot = [] \<rparr>"

definition seedStep :: "nat \<Rightarrow> SeedUser \<Rightarrow> Store \<Rightarrow> Store option" where
  "seedStep uid seed store = do {
     let rating = clampRating (SeedUser.Rating seed);
     users1 \<leftarrow> put (users store) uid \<lparr> User.ID = uid, User.Username = SeedUser.Username seed \<rparr>;
     ratings1 \<leftarrow> put (ratings store) uid rating;
     usernameLower1 \<leftarrow> put (usernameLower store) uid (strings_ToLower (SeedUser.Username seed));
     lower \<leftarrow> at usernameLower1 uid;
     usernameIndex1 \<leftarrow> put (usernameIndex store) uid \<lparr> UsernameLower = lower, UsernameIndex.ID = uid \<rparr>;
     let ratingIdx = rating - minRating;
     bucket \<leftarrow> ati (ratingBuckets store) ratingIdx;
     bucketIndex1 \<leftarrow> put (bucketIndex store) uid (length bucket);
     ratingBuckets1 \<leftarrow> puti (ratingBuckets store) ratingIdx (bucket @ [uid]);
     c \<leftarrow> ati (ratingCounts store) ratingIdx;
     ratingCounts1 \<leftarrow> puti (ratingCounts store) ratingIdx (c + 1);
     Some (store \<lparr> users := users1, ratings := ratings1, usernameLower := usernameLower1,
                   usernameIndex := usernameIndex1, ratingBuckets := ratingBuckets1,
                   bucketIndex := bucketIndex1, ratingCounts := ratingCounts1 \<rparr>)
   }"

fun seedLoop :: "nat \<Rightarrow> SeedUser list \<Rightarrow> Store \<Rightarrow> Store option" where
  "seedLoop uid [] store = Some store"
| "seedLoop uid (seed # seeds) store =
     (case seedStep uid seed store of
        None \<Rightarrow> None
      | Some store1 \<Rightarrow> seedLoop (uid + 1) seeds store1)"

definition indexLess :: "UsernameIndex \<Rightarrow> UsernameIndex \<Rightarrow> bool" where
  "indexLess a b =
     (if UsernameLower a = UsernameLower b then UsernameIndex.ID a < UsernameIndex.ID b
      else UsernameLower a < UsernameLower b)"

definition NewStore :: "SeedUser list \<Rightarrow> Store option" where
  "NewStore seeds = do {
     store \<leftarrow> seedLoop 0 seeds (emptyStore (length seeds));
     Some (store \<lparr> usernameIndex := sort_Slice indexLess (usernameIndex store),
                   snapshot := [] \<rparr>)
   }"

definition UserCount :: "Store \<Rightarrow> int" where
  "UserCount s = int (totalUsers s)"

subsection \<open>rank\<close>

function rank_loop :: "int list \<Rightarrow> int \<Rightarrow> int \<Rightarrow> int option" where
  "rank_loop counts current above_acc =
     (if current \<le> maxRating
      then (case ati counts (current - minRating) of
              None \<Rightarrow> None
            | Some c \<Rightarrow> rank_loop counts (current + 1) (above_acc + c))
      else Some above_acc)"
  by pat_completeness auto
termination
  by (relation "measure (\<lambda>(counts, current, above_acc). nat (maxRating + 1 - current))") auto

declare rank_loop.simps [simp del]

definition rank :: "Store \<Rightarrow> int \<Rightarrow> int option" where
  "rank s rating = do {
     above_acc \<leftarrow> rank_loop (ratingCounts s) (clampRating rating + 1) 0;
     Some (above_acc + 1)
   }"

subsection \<open>buildSnapshot, RefreshSnapshot, SnapshotIDs\<close>

text \<open>
  The comparator of the snapshot sort reads \<open>usernameLower[ids[i]]\<close> for every element of
  a bucket with more than one member, so such a bucket panics exactly when one of its ids
  is out of range; that check is made before the sort.
\<close>

definition snapshotLess :: "Store \<Rightarrow> nat \<Rightarrow> nat \<Rightarrow> bool" where
  "snapshotLess s a b \<longleftrightarrow> usernameLower s ! a < usernameLower s ! b"

function buildSnapshot_loop :: "Store \<Rightarrow> int \<Rightarrow> nat list \<Rightarrow> nat list option" where
  "buildSnapshot_loop s rating snap =
     (if rating \<ge> minRating
      then (case ati (ratingBuckets s) (rating - minRating) of
              None \<Rightarrow> None
            | Some bucket \<Rightarrow>
                if length bucket = 0 then buildSnapshot_loop s (rating - 1) snap
                else if length bucket > 1
                then (if \<forall>uid \<in> set bucket. uid < length (usernameLower s)
                      then buildSnapshot_loop s (rating - 1)
                             (snap @ sort_Slice (snapshotLess s) bucket)
                      else None)
                else buildSnapshot_loop s (rating - 1) (snap @ bucket))
      else Some snap)"
  by pat_completeness auto
termination
  by (relation "measure (\<lambda>(s, rating, snap). nat (rating - minRating + 1))") auto

declare buildSnapshot_loop.simps [simp del]

definition buildSnapshot :: "Store \<Rightarrow> nat list option" where
  "buildSnapshot s = buildSnapshot_loop s maxRating []"

definition RefreshSnapshot :: "Store \<Rightarrow> Store option" where
  "RefreshSnapshot s = do {
     snap \<leftarrow> buildSnapshot s;
     Some (s \<lparr> snapshot := snap \<rparr>)
   }"

definition SnapshotIDs :: "Store \<Rightarrow> nat list" where
  "SnapshotIDs s = snapshot s"

subsection \<open>LeaderboardPage\<close>

definition entryOf :: "Store \<Rightarrow> nat \<Rightarrow> LeaderboardEntry option" where
  "entryOf s uid = do {
     rating \<leftarrow> at (ratings s) uid;
     rk \<leftarrow> rank s rating;
     user \<leftarrow> at (users s) uid;
     Some \<lparr> Rank = rk, LeaderboardEntry.Username = User.Username user,
            LeaderboardEntry.Rating = rating \<rparr>
   }"

fun collectEntries ::
  "Store \<Rightarrow> nat list \<Rightarrow> LeaderboardEntry list \<Rightarrow> LeaderboardEntry list option" where
  "collectEntries s [] results = Some results"
| "collectEntries s (uid # ids) results =
     (case entryOf s uid of
        None \<Rightarrow> None
      | Some e \<Rightarrow> collectEntries s ids (results @ [e]))"

definition LeaderboardPage :: "Store \<Rightarrow> int \<Rightarrow> int \<Rightarrow> LeaderboardEntry list option" where
  "LeaderboardPage s page limit =
     (let limit1 = (if limit \<le> 0 then 20 else limit);
          page1 = (if page \<le> 0 then 1 else page);
          snap = SnapshotIDs s
      in if length snap = 0 then Some []
         else let offset = (page1 - 1) * limit1
              in if offset \<ge> int (length snap) then Some []
                 else let end0 = offset + limit1;
                          end1 = (if end0 > int (length snap) then int (length snap) else end0)
                      in collectEntries s (take (nat end1 - nat offset) (drop (nat offset) snap)) [])"

subsection \<open>SearchPage\<close>

text \<open>The two binary searches of \<open>SearchPage\<close> (lines 261 to 267), as a pair.\<close>

definition prefixRange :: "Store \<Rightarrow> string \<Rightarrow> nat \<times> nat" where
  "prefixRange s pfx =
     (let start = sort_Search (length (usernameIndex s))
                    (\<lambda>i. UsernameLower (usernameIndex s ! i) \<ge> pfx);
          prefixHigh = pfx @ [CHR 0xFF];
          end0 = sort_Search (length (usernameIndex s))
                    (\<lambda>i. UsernameLower (usernameIndex s ! i) \<ge> prefixHigh)
      in (start, end0))"

fun collectIndexed ::
  "Store \<Rightarrow> nat list \<Rightarrow> LeaderboardEntry list \<Rightarrow> LeaderboardEntry list option" where
  "collectIndexed s [] results = Some results"
| "collectIndexed s (i # is) results =
     (case at (usernameIndex s) i of
        None \<Rightarrow> None
      | Some ix \<Rightarrow>
          (case entryOf s (UsernameIndex.ID ix) of
             None \<Rightarrow> None
           | Some e \<Rightarrow> collectIndexed s is (results @ [e])))"

definition SearchPage ::
  "Store \<Rightarrow> string \<Rightarrow> int \<Rightarrow> int \<Rightarrow> (LeaderboardEntry list \<times> int \<times> int \<times> int) option" where
  "SearchPage s pfx page limit =
     (let limit1 = (if limit \<le> 0 then 20 else limit);
          page1 = (if page \<le> 0 then 1 else page);
          pfx1 = strings_ToLower (strings_TrimSpace pfx)
      in if pfx1 = [] then Some ([], 0, page1, 0)
         else let (start, end0) = prefixRange s pfx1;
                  totl = int end0 - int start;
                  totalPages = calcTotalPages totl limit1;
                  page2 = clampPage page1 totalPages
              in if totl = 0 then Some ([], 0, page2, totalPages)
                 else let offset = (page2 - 1) * limit1;
                          startIdx = int start + offset
                      in if startIdx \<ge> int end0 then Some ([], totl, page2, totalPages)
                         else let endIdx0 = startIdx + limit1;
                                  endIdx = (if endIdx0 > int end0 then int end0 else endIdx0)
                              in (case collectIndexed s [nat startIdx..<nat endIdx] [] of
                                    None \<Rightarrow> None
                                  | Some results \<Rightarrow> Some (results, totl, page2, totalPages)))"

subsection \<open>updateUserRating\<close>

definition updateUserRating :: "Store \<Rightarrow> nat \<Rightarrow> int \<Rightarrow> Store option" where
  "updateUserRating s uid newRating = do {
     oldRating \<leftarrow> at (ratings s) uid;
     if oldRating = newRating then Some s
     else do {
       let oldBucketIdx = oldRating - minRating;
       let newBucketIdx = newRating - minRating;
       oldBucket \<leftarrow> ati (ratingBuckets s) oldBucketIdx;
       oldPos \<leftarrow> at (bucketIndex s) uid;
       lastID \<leftarrow> ati oldBucket (int (length oldBucket) - 1);
       oldBucket1 \<leftarrow> put oldBucket oldPos lastID;
       bucketIndex1 \<leftarrow> put (bucketIndex s) lastID oldPos;
       let oldBucket2 = butlast oldBucket1;
       ratingBuckets1 \<leftarrow> puti (ratingBuckets s) oldBucketIdx oldBucket2;
       newBucket \<leftarrow> ati ratingBuckets1 newBucketIdx;
       bucketIndex2 \<leftarrow> put bucketIndex1 uid (length newBucket);
       let newBucket1 = newBucket @ [uid];
       ratingBuckets2 \<leftarrow> puti ratingBuckets1 newBucketIdx newBucket1;
       cOld \<leftarrow> ati (ratingCounts s) oldBucketIdx;
       ratingCounts1 \<leftarrow> puti (ratingCounts s) oldBucketIdx (cOld - 1);
       cNew \<leftarrow> ati ratingCounts1 newBucketIdx;
       ratingCounts2 \<leftarrow> puti ratingCounts1 newBucketIdx (cNew + 1);
       ratings1 \<leftarrow> put (ratings s) uid newRating;
       Some (s \<lparr> ratingBuckets := ratingBuckets2, bucketIndex := bucketIndex2,
               ratingCounts := ratingCounts2, ratings := ratings1 \<rparr>)
     }
   }"

subsection \<open>The /leaderboard and /search handlers of buildApp\<close>

text \<open>
  The handlers receive \<open>page\<close> and \<open>limit\<close> as \<open>getQueryInt\<close> parsed them, and the raw
  \<open>query\<close> and \<open>q\<close> parameters; the response is the record that is then encoded.
\<close>

definition leaderboardHandler :: "Store \<Rightarrow> int \<Rightarrow> int \<Rightarrow> LeaderboardResponse option" where
  "leaderboardHandler store page limit =
     (let limit1 = (if limit \<le> 0 then 20 else limit);
          limit2 = (if limit1 > 200 then 200 else limit1);
          totalUsers1 = UserCount store;
          totalPages = calcTotalPages totalUsers1 limit2;
          page1 = clampPage page totalPages
      in (case LeaderboardPage store page1 limit2 of
            None \<Rightarrow> None
          | Some entries \<Rightarrow>
              Some \<lparr> TotalUsers = totalUsers1, LeaderboardResponse.Page = page1,
                     LeaderboardResponse.PageSize = limit2,
                     LeaderboardResponse.TotalPages = totalPages, Entries = entries \<rparr>))"

definition searchHandler ::
  "Store \<Rightarrow> string \<Rightarrow> string \<Rightarrow> int \<Rightarrow> int \<Rightarrow> SearchResponse option" where
  "searchHandler store queryParam qParam page limit =
     (let query = (if queryParam = [] then qParam else queryParam);
          limit1 = (if limit \<le> 0 then 20 else limit);
          limit2 = (if limit1 > 200 then 200 else limit1)
      in (case SearchPage store query page limit2 of
            None \<Rightarrow> None
          | Some (results, totl, pageOut, totalPages) \<Rightarrow>
              Some \<lparr> Query = query, Count = int (length results), Total = totl,
                     SearchResponse.Page = pageOut, SearchResponse.PageSize = limit2,
                     SearchResponse.TotalPages = totalPages, Results = results \<rparr>))"

subsection \<open>Store invariants and reachable stores\<close>

text \<open>
  \<open>buckets_ok S rt B bi\<close>: for the set \<open>S\<close> of ids currently filed, every id of \<open>S\<close> has
  a rating in range and sits in the bucket of its rating at the position of its
  back-reference, and every bucket slot holds an id of \<open>S\<close> whose rating and
  back-reference point back at that slot. \<open>counts_ok\<close>: every counter equals the length
  of its bucket. \<open>store_inv\<close>: array lengths, \<open>buckets_ok\<close> for all ids \<open>[0, N)\<close>,
  \<open>counts_ok\<close>, and the counters sum to \<open>N\<close>.
\<close>

definition buckets_ok :: "nat set \<Rightarrow> int list \<Rightarrow> nat list list \<Rightarrow> nat list \<Rightarrow> bool" where
  "buckets_ok S rt B bi \<longleftrightarrow>
     length B = ratingRange \<and>
     (\<forall>uid \<in> S.
        minRating \<le> rt ! uid \<and> rt ! uid \<le> maxRating \<and>
        bi ! uid < length (B ! nat (rt ! uid - minRating)) \<and>
        B ! nat (rt ! uid - minRating) ! (bi ! uid) = uid) \<and>
     (\<forall>r < ratingRange. \<forall>p < length (B ! r).
        B ! r ! p \<in> S \<and> rt ! (B ! r ! p) = int r + minRating \<and> bi ! (B ! r ! p) = p)"

definition counts_ok :: "int list \<Rightarrow> nat list list \<Rightarrow> bool" where
  "counts_ok cnt B \<longleftrightarrow>
     length cnt = ratingRange \<and> (\<forall>r < ratingRange. cnt ! r = int (length (B ! r)))"

definition store_inv :: "Store \<Rightarrow> bool" where
  "store_inv s \<longleftrightarrow>
     length (users s) = totalUsers s \<and> length (ratings s) = totalUsers s \<and>
     length (usernameLower s) = totalUsers s \<and> length (bucketIndex s) = totalUsers s \<and>
     buckets_ok {..<totalUsers s} (ratings s) (ratingBuckets s) (bucketIndex s) \<and>
     counts_ok (ratingCounts s) (ratingBuckets s) \<and>
     sum_list (ratingCounts s) = int (totalUsers s)"

definition indexLe :: "UsernameIndex \<Rightarrow> UsernameIndex \<Rightarrow> bool" where
  "indexLe a b \<longleftrightarrow>
     UsernameLower a < UsernameLower b \<or>
     (UsernameLower a = UsernameLower b \<and> UsernameIndex.ID a \<le> UsernameIndex.ID b)"

definition index_inv :: "Store \<Rightarrow> bool" where
  "index_inv s \<longleftrightarrow>
     sorted_wrt indexLe (usernameIndex s) \<and>
     mset (usernameIndex s)
       = mset (map (\<lambda>uid. \<lparr> UsernameLower = usernameLower s ! uid, UsernameIndex.ID = uid \<rparr>)
                   [0..<totalUsers s])"

text \<open>The loop invariant of the seeding loop of \<open>NewStore\<close>, after \<open>k\<close> seeds.\<close>

definition seed_inv :: "nat \<Rightarrow> Store \<Rightarrow> bool" where
  "seed_inv k s \<longleftrightarrow>
     k \<le> totalUsers s \<and>
     length (users s) = totalUsers s \<and> length (ratings s) = totalUsers s \<and>
     length (usernameLower s) = totalUsers s \<and> length (usernameIndex s) = totalUsers s \<and>
     length (bucketIndex s) = totalUsers s \<and>
     buckets_ok {..<k} (ratings s) (ratingBuckets s) (bucketIndex s) \<and>
     counts_ok (ratingCounts s) (ratingBuckets s) \<and>
     sum_list (ratingCounts s) = int k \<and>
     (\<forall>uid < k. usernameIndex s ! uid
        = \<lparr> UsernameLower = usernameLower s ! uid, UsernameIndex.ID = uid \<rparr>)"

inductive reachable :: "Store \<Rightarrow> bool" where
  seeded: "NewStore seeds = Some s \<Longrightarrow> reachable s"
| updated: "reachable s \<Longrightarrow> updateUserRating s uid newRating = Some s' \<Longrightarrow> reachable s'"
| refreshed: "reachable s \<Longrightarrow> RefreshSnapshot s = Some s' \<Longrightarrow> reachable s'"

text \<open>The order the snapshot is specified to have: rating descending, then
  \<open>usernameLower\<close> ascending, then id ascending; and the same without the last key.\<close>

definition snapshotLe :: "Store \<Rightarrow> nat \<Rightarrow> nat \<Rightarrow> bool" where
  "snapshotLe s a b \<longleftrightarrow>
     ratings s ! a > ratings s ! b \<or>
     (ratings s ! a = ratings s ! b \<and>
        (usernameLower s ! a < usernameLower s ! b \<or>
         (usernameLower s ! a = usernameLower s ! b \<and> a \<le> b)))"

definition snapshotLe2 :: "Store \<Rightarrow> nat \<Rightarrow> nat \<Rightarrow> bool" where
  "snapshotLe2 s a b \<longleftrightarrow>
     ratings s ! a > ratings s ! b \<or>
     (ratings s ! a = ratings s ! b \<and> usernameLower s ! a \<le> usernameLower s ! b)"

subsection \<open>A small store used as test fixture\<close>

text \<open>
  Two users whose names differ only in case: \<open>A\<close> seeded at 100 and \<open>a\<close> at 200.
  \<open>demoStore0\<close> is the store \<open>NewStore\<close> builds from them, \<open>demoStore1\<close> the store after
  \<open>updateUserRating 0 200\<close>, \<open>demoStore2\<close> the latter with its snapshot published.
\<close>

definition demoSeeds :: "SeedUser list" where
  "demoSeeds = [\<lparr> SeedUser.Username = ''A'', Rating = 100 \<rparr>,
                \<lparr> SeedUser.Username = ''a'', Rating = 200 \<rparr>]"

definition demoStore0 :: Store where
  "demoStore0 =
     \<lparr> users = [\<lparr> User.ID = 0, Username = ''A'' \<rparr>, \<lparr> User.ID = 1, Username = ''a'' \<rparr>],
       ratings = [100, 200],
       usernameLower = [''a'', ''a''],
       usernameIndex = [\<lparr> UsernameLower = ''a'', ID = 0 \<rparr>, \<lparr> UsernameLower = ''a'', ID = 1 \<rparr>],
       ratingCounts = (replicate ratingRange 0)[0 := 1, 100 := 1],
       totalUsers = 2,
       ratingBuckets = (replicate ratingRange [])[0 := [0], 100 := [1]],
       bucketIndex = [0, 0],
       snapshot = [] \<rparr>"

definition demoStore1 :: Store where
  "demoStore1 =
     \<lparr> users = [\<lparr> User.ID = 0, Username = ''A'' \<rparr>, \<lparr> User.ID = 1, Username = ''a'' \<rparr>],
       ratings = [200, 200],
       usernameLower = [''a'', ''a''],
       usernameIndex = [\<lparr> UsernameLower = ''a'', ID = 0 \<rparr>, \<lparr> UsernameLower = ''a'', ID = 1 \<rparr>],
       ratingCounts = (replicate ratingRange 0)[0 := 0, 100 := 2],
       totalUsers = 2,
       ratingBuckets = (replicate ratingRange [])[0 := [], 100 := [1, 0]],
       bucketIndex = [1, 0],
       snapshot = [] \<rparr>"

definition demoStore2 :: Store where
  "demoStore2 = demoStore1 \<lparr> snapshot := [1, 0] \<rparr>"

text \<open>What one iteration of \<open>buildSnapshot\<close> appends for a bucket.\<close>

definition sortedBucket :: "Store \<Rightarrow> nat list \<Rightarrow> nat list" where
  "sortedBucket s bucket =
     (if length bucket > 1 then sort_Slice (snapshotLess s) bucket else bucket)"

text \<open>A second fixture: \<open>bob\<close> and \<open>Al\<close>, both seeded at 1500.\<close>

definition demoSeedsB :: "SeedUser list" where
  "demoSeedsB = [\<lparr> SeedUser.Username = ''bob'', Rating = 1500 \<rparr>,
                 \<lparr> SeedUser.Username = ''Al'', Rating = 1500 \<rparr>]"

definition demoStoreB :: Store where
  "demoStoreB =
     \<lparr> users = [\<lparr> User.ID = 0, Username = ''bob'' \<rparr>, \<lparr> User.ID = 1, Username = ''Al'' \<rparr>],
       ratings = [1500, 1500],
       usernameLower = [''bob'', ''al''],
       usernameIndex = [\<lparr> UsernameLower = ''al'', ID = 1 \<rparr>, \<lparr> UsernameLower = ''bob'', ID = 0 \<rparr>],
       ratingCounts = (replicate ratingRange 0)[1400 := 2],
       totalUsers = 2,
       ratingBuckets = (replicate ratingRange [])[1400 := [0, 1]],
       bucketIndex = [0, 1],
       snapshot = [] \<rparr>"

definition search_post :: "nat \<Rightarrow> (nat \<Rightarrow> bool) \<Rightarrow> nat \<Rightarrow> nat \<Rightarrow> nat \<Rightarrow> bool" where
  "search_post n f i j k \<longleftrightarrow>
     i \<le> k \<and> k \<le> j \<and> (\<forall>x < k. \<not> f x) \<and> (\<forall>x. k \<le> x \<and> x < n \<longrightarrow> f x)"

text \<open>The entry that \<open>entryOf\<close> builds for an id: live rank, display name, live rating.\<close>

definition liveEntry :: "Store \<Rightarrow> nat \<Rightarrow> LeaderboardEntry" where
  "liveEntry s uid =
     \<lparr> Rank = 1 + (\<Sum>k = clampRating (ratings s ! uid) + 1..maxRating.
                      ratingCounts s ! nat (k - minRating)),
       LeaderboardEntry.Username = User.Username (users s ! uid),
       LeaderboardEntry.Rating = ratings s ! uid \<rparr>"

section \<open>Properties\<close>

declare trimLeft.simps [simp del] trimRight.simps [simp del]

subsection \<open>Rank\<close>

lemma clampRating_range: "minRating \<le> clampRating r \<and> clampRating r \<le> maxRating"
  by (simp add: clampRating_def)

lemma rank_loop_sum:
  "length counts = ratingRange \<Longrightarrow> minRating \<le> current \<Longrightarrow>
   rank_loop counts current above_acc
     = Some (above_acc + (\<Sum>k = current..maxRating. counts ! nat (k - minRating)))"
proof (induction counts current above_acc rule: rank_loop.induct)
  case (1 counts current above_acc)
  show ?case
  proof (cases "current \<le> maxRating")
    case True
    have rd: "ati counts (current - minRating) = Some (counts ! nat (current - minRating))"
      using True "1.prems" by (simp add: ati_def)
    have split: "{current..maxRating} = insert current {current + 1..maxRating}"
      using True by auto
    have "rank_loop counts current above_acc
            = rank_loop counts (current + 1) (above_acc + counts ! nat (current - minRating))"
      using True rd by (subst rank_loop.simps) simp
    also have "\<dots> = Some (above_acc + counts ! nat (current - minRating)
                   + (\<Sum>k = current + 1..maxRating. counts ! nat (k - minRating)))"
      using "1.IH" [OF True rd] "1.prems" by simp
    also have "\<dots> = Some (above_acc + (\<Sum>k = current..maxRating. counts ! nat (k - minRating)))"
      by (subst split) (simp add: add.assoc)
    finally show ?thesis .
  next
    case False
    then show ?thesis by (subst rank_loop.simps) simp
  qed
qed

lemma rank_eq:
  "length (ratingCounts s) = ratingRange \<Longrightarrow>
   rank s r = Some (1 + (\<Sum>k = clampRating r + 1..maxRating. ratingCounts s ! nat (k - minRating)))"
  using clampRating_range [of r] by (simp add: rank_def rank_loop_sum)

lemma clampRating_max_min: "clampRating r = max minRating (min maxRating r)"
  by (simp add: clampRating_def max_def min_def)

lemma entryOf_rank:
  assumes "length (ratingCounts s) = ratingRange"
    and "a < length (ratings s)" and "a < length (users s)"
  shows "\<exists>e. entryOf s a = Some e \<and> rank s (ratings s ! a) = Some (Rank e) \<and>
           LeaderboardEntry.Rating e = ratings s ! a"
  using assms by (simp add: entryOf_def at_def rank_eq)

text \<open>
  C1: for every integer rating \<open>r\<close>, \<open>rank\<close> clamps \<open>r\<close> into [100, 5000], that is, to
  \<open>max 100 (min 5000 r)\<close>, and returns 1 plus the sum of the bucket counters of all
  ratings strictly greater than the clamped \<open>r\<close>. Consequently two users whose stored
  ratings are equal get entries with the same rank.
\<close>

theorem C1_rank_clamped_sum:
  assumes "length (ratingCounts s) = ratingRange"
  shows "clampRating r = max minRating (min maxRating r)
       \<and> rank s r = Some (1 + (\<Sum>k \<in> {k. max minRating (min maxRating r) < k \<and> k \<le> maxRating}.
                                 ratingCounts s ! nat (k - minRating)))
       \<and> (a < length (ratings s) \<and> a < length (users s) \<and>
          b < length (ratings s) \<and> b < length (users s) \<and> ratings s ! a = ratings s ! b
          \<longrightarrow> (\<exists>ea eb. entryOf s a = Some ea \<and> entryOf s b = Some eb \<and> Rank ea = Rank eb))"
proof -
  have "{k. max minRating (min maxRating r) < k \<and> k \<le> maxRating}
          = {clampRating r + 1..maxRating}"
    unfolding clampRating_max_min by auto
  then have rk: "rank s r = Some (1 + (\<Sum>k \<in> {k. max minRating (min maxRating r) < k \<and> k \<le> maxRating}.
                                 ratingCounts s ! nat (k - minRating)))"
    using rank_eq [OF assms, of r] by simp
  have ties: "\<exists>ea eb. entryOf s a = Some ea \<and> entryOf s b = Some eb \<and> Rank ea = Rank eb"
    if h: "a < length (ratings s)" "a < length (users s)"
      "b < length (ratings s)" "b < length (users s)" "ratings s ! a = ratings s ! b"
  proof -
    from entryOf_rank [OF assms h(1,2)] obtain ea where
      ea: "entryOf s a = Some ea" "rank s (ratings s ! a) = Some (Rank ea)" by blast
    from entryOf_rank [OF assms h(3,4)] obtain eb where
      eb: "entryOf s b = Some eb" "rank s (ratings s ! b) = Some (Rank eb)" by blast
    have "Rank ea = Rank eb" using ea(2) eb(2) h(5) by simp
    then show ?thesis using ea(1) eb(1) by blast
  qed
  show ?thesis using clampRating_max_min rk ties by blast
qed

text \<open>The fixture stores are what the code computes from the fixture seeds.\<close>

lemma toLower_demo: "strings_ToLower ''A'' = ''a''" "strings_ToLower ''a'' = ''a''"
  by code_simp+

lemma list_update_swap_0_100: "xs[100 := x, 0 := y] = xs[0 := y, 100 := x]"
  by (simp add: list_update_swap)

lemma demoStore0_seeded: "NewStore demoSeeds = Some demoStore0"
  by (simp add: NewStore_def demoSeeds_def emptyStore_def seedStep_def put_def at_def ati_def
      puti_def clampRating_def toLower_demo sort_Slice_def insertionSortLess_def indexLess_def
      demoStore0_def)

lemma demoStore1_updated: "updateUserRating demoStore0 0 200 = Some demoStore1"
  by (simp add: updateUserRating_def demoStore0_def demoStore1_def put_def at_def ati_def
      puti_def list_update_swap_0_100)

lemma demoStore1_counts:
  "minRating \<le> k \<Longrightarrow> k \<le> maxRating \<Longrightarrow>
   ratingCounts demoStore1 ! nat (k - minRating) = (if k = 200 then 2 else 0)"
proof -
  assume k: "minRating \<le> k" "k \<le> maxRating"
  have n: "nat (k - minRating) < ratingRange" using k by auto
  have e: "nat (k - minRating) = 100 \<longleftrightarrow> k = 200" using k by auto
  have z: "nat (k - minRating) = 0 \<longleftrightarrow> k = 100" using k by auto
  show ?thesis using n e z by (auto simp: demoStore1_def nth_list_update)
qed

lemma demoStore1_sum_above_150:
  "(\<Sum>k \<in> {k. (150 :: int) < k \<and> k \<le> maxRating}. ratingCounts demoStore1 ! nat (k - minRating)) = 2"
proof -
  have "(\<Sum>k \<in> {k. (150 :: int) < k \<and> k \<le> maxRating}. ratingCounts demoStore1 ! nat (k - minRating))
          = (\<Sum>k \<in> {k. (150 :: int) < k \<and> k \<le> maxRating}. if k = 200 then 2 else 0)"
    by (rule sum.cong) (simp_all add: demoStore1_counts)
  also have "\<dots> = 2"
  proof -
    have fin: "finite {k. (150 :: int) < k \<and> k \<le> maxRating}"
    proof -
      have "{k. (150 :: int) < k \<and> k \<le> maxRating} = {151..maxRating}" by auto
      then show ?thesis by simp
    qed
    show ?thesis using sum.delta [OF fin, of 200 "\<lambda>_. 2 :: int"] by simp
  qed
  finally show ?thesis .
qed

theorem C1_rank_clamped_sum_witness:
  "clampRating 150 = 150 \<and> rank demoStore1 150 = Some 3 \<and> rank demoStore1 (- 5) = rank demoStore1 100
   \<and> (\<exists>ea eb. entryOf demoStore1 0 = Some ea \<and> entryOf demoStore1 1 = Some eb \<and> Rank ea = Rank eb)"
proof -
  have len: "length (ratingCounts demoStore1) = ratingRange"
    by (simp add: demoStore1_def)
  have h: "0 < length (ratings demoStore1) \<and> 0 < length (users demoStore1) \<and>
      1 < length (ratings demoStore1) \<and> 1 < length (users demoStore1) \<and>
      ratings demoStore1 ! 0 = ratings demoStore1 ! 1"
    by (simp add: demoStore1_def)
  have m: "max minRating (min maxRating 150) = (150 :: int)"
    "max minRating (min maxRating (- 5)) = (100 :: int)"
    "max minRating (min maxRating 100) = (100 :: int)" by simp_all
  note t150 = C1_rank_clamped_sum [OF len, of 150 0 1]
  note tneg = C1_rank_clamped_sum [OF len, of "- 5" 0 1]
  note t100 = C1_rank_clamped_sum [OF len, of 100 0 1]
  have c: "clampRating 150 = 150" using t150 m(1) by simp
  have r: "rank demoStore1 150 = Some 3"
    using t150 unfolding m(1) demoStore1_sum_above_150 by simp
  have e: "rank demoStore1 (- 5) = rank demoStore1 100"
    using tneg t100 unfolding m by simp
  have t: "\<exists>ea eb. entryOf demoStore1 0 = Some ea \<and> entryOf demoStore1 1 = Some eb \<and> Rank ea = Rank eb"
    using t150 h by blast
  show ?thesis using c r e t by blast
qed

subsection \<open>Page clamp\<close>

text \<open>
  C5 as stated (the page clamp yields 1 whenever \<open>totalPages\<close> is 0) fails: the upper
  bound is applied only under the guard \<open>totalPages > 0\<close>, so page 5 of 0 pages stays 5.
\<close>

theorem C5_clampPage_counterexample: "clampPage 5 0 = 5 \<and> clampPage 5 0 \<noteq> 1"
  by (simp add: clampPage_def)

text \<open>
  C5, amended: for every \<open>page\<close> and \<open>totalPages\<close>, the page clamp yields a result in
  \<open>[1, totalPages]\<close> when \<open>totalPages \<ge> 1\<close>, and yields \<open>max 1 page\<close> when \<open>totalPages\<close> is 0
  or less (so 1 exactly when \<open>page \<le> 1\<close>).
\<close>

theorem C5_clampPage_amended:
  "(1 \<le> totalPages \<longrightarrow>
      1 \<le> clampPage page totalPages \<and> clampPage page totalPages \<le> totalPages)
 \<and> (totalPages \<le> 0 \<longrightarrow> clampPage page totalPages = max 1 page)"
  by (simp add: clampPage_def Let_def max_def)

theorem C5_clampPage_amended_witness:
  "(1 \<le> clampPage 7 3 \<and> clampPage 7 3 \<le> 3) \<and> clampPage 5 0 = 5 \<and> clampPage (- 2) 0 = 1"
  using C5_clampPage_amended [of 3 7] C5_clampPage_amended [of 0 5]
    C5_clampPage_amended [of 0 "- 2"]
  by simp

subsection \<open>Updating a rating to itself\<close>

text \<open>
  C8: for every id of the store, \<open>updateUserRating\<close> called with the rating the id
  already has returns at once and leaves the whole store as it was: every bucket,
  back-reference, counter and rating.
\<close>

theorem C8_update_same_rating_noop:
  "uid < length (ratings s) \<Longrightarrow> updateUserRating s uid (ratings s ! uid) = Some s"
  by (simp add: updateUserRating_def at_def)

theorem C8_update_same_rating_noop_witness:
  "1 < length (ratings demoStore0) \<and> updateUserRating demoStore0 1 200 = Some demoStore0"
proof -
  have h: "1 < length (ratings demoStore0)" by (simp add: demoStore0_def)
  have r: "ratings demoStore0 ! 1 = 200" by (simp add: demoStore0_def)
  show ?thesis
    using C8_update_same_rating_noop [OF h] h r by simp
qed

subsection \<open>Blank queries\<close>

lemma whiteSpace_prefix_free_exec:
  "list_all (\<lambda>v. list_all (\<lambda>w. prefix v w \<longrightarrow> v = w) whiteSpace) whiteSpace"
  by code_simp

lemma whiteSpace_prefix_free:
  "v \<in> set whiteSpace \<Longrightarrow> w \<in> set whiteSpace \<Longrightarrow> prefix v w \<Longrightarrow> v = w"
  using whiteSpace_prefix_free_exec by (auto simp: list_all_iff)

lemma whiteSpace_nonempty_exec: "list_all (\<lambda>w. w \<noteq> []) whiteSpace"
  by code_simp

lemma whiteSpace_nonempty: "w \<in> set whiteSpace \<Longrightarrow> w \<noteq> []"
  using whiteSpace_nonempty_exec by (auto simp: list_all_iff)

lemma spaceWidth_encoding:
  assumes w: "w \<in> set whiteSpace"
  shows "spaceWidth (w @ rest) = length w"
proof (cases "find (\<lambda>v. prefix v (w @ rest)) whiteSpace")
  case None
  then have "\<not> prefix w (w @ rest)" using w by (auto simp: find_None_iff)
  then show ?thesis by simp
next
  case (Some v)
  then have v: "v \<in> set whiteSpace" "prefix v (w @ rest)"
    by (auto simp: find_Some_iff)
  have "prefix w (w @ rest)" by simp
  then have "prefix v w \<or> prefix w v" using v(2) by (rule prefix_same_cases [rotated])
  then have "v = w" using whiteSpace_prefix_free [OF v(1) w] whiteSpace_prefix_free [OF w v(1)]
    by blast
  then show ?thesis using Some by (simp add: spaceWidth_def)
qed

lemma trimLeft_Nil: "trimLeft [] = []"
  by (subst trimLeft.simps) simp

lemma trimRight_Nil: "trimRight [] = []"
  by (subst trimRight.simps) simp

lemma trimLeft_encoding:
  assumes "w \<in> set whiteSpace"
  shows "trimLeft (w @ rest) = trimLeft rest"
proof -
  have "spaceWidth (w @ rest) = length w" by (rule spaceWidth_encoding [OF assms])
  moreover have "length w \<noteq> 0" using whiteSpace_nonempty [OF assms] by simp
  ultimately show ?thesis
    using whiteSpace_nonempty [OF assms] by (subst trimLeft.simps) simp
qed

lemma trimLeft_all_space: "set ws \<subseteq> set whiteSpace \<Longrightarrow> trimLeft (concat ws) = []"
  by (induction ws) (simp_all add: trimLeft_Nil trimLeft_encoding)

lemma TrimSpace_all_space: "set ws \<subseteq> set whiteSpace \<Longrightarrow> strings_TrimSpace (concat ws) = []"
  by (simp add: strings_TrimSpace_def trimLeft_all_space trimRight_Nil)

lemma TrimSpace_example:
  "strings_TrimSpace ([CHR 0x20, CHR 0xC2, CHR 0xA0] @ ''a b'' @ [CHR 0xE3, CHR 0x80, CHR 0x80, CHR 0x0A])
     = ''a b''"
  by code_simp

text \<open>
  C9: for every query that is empty or consists only of white space (any sequence of
  Unicode white-space characters, ASCII or not), nothing is left after trimming and
  \<open>SearchPage\<close> returns normally (no panic, no error value) with an empty result list and
  \<open>total = 0\<close>; the page is the requested one (1 when it was not positive) and the page
  count is 0. The store is not read before the return, so this holds in every store. The
  \<open>/search\<close> handler then answers with \<open>total = 0\<close>, \<open>count = 0\<close> and no results.
\<close>

theorem C9_blank_query_empty_result:
  assumes "set ws \<subseteq> set whiteSpace"
  shows "strings_TrimSpace (concat ws) = [] \<and>
         SearchPage s (concat ws) page limit = Some ([], 0, if page \<le> 0 then 1 else page, 0) \<and>
         (\<exists>resp. searchHandler s (concat ws) [] page limit = Some resp \<and>
            Results resp = [] \<and> Total resp = 0 \<and> Count resp = 0)"
proof -
  have t: "strings_TrimSpace (concat ws) = []" by (rule TrimSpace_all_space [OF assms])
  have sp: "\<And>l. SearchPage s (concat ws) page l = Some ([], 0, if page \<le> 0 then 1 else page, 0)"
    using t by (simp add: SearchPage_def strings_ToLower_def Let_def)
  have "\<exists>resp. searchHandler s (concat ws) [] page limit = Some resp \<and>
            Results resp = [] \<and> Total resp = 0 \<and> Count resp = 0"
  proof -
    have q: "(if concat ws = [] then [] else concat ws) = concat ws" by simp
    show ?thesis unfolding searchHandler_def Let_def q sp by simp
  qed
  then show ?thesis using t sp by blast
qed

theorem C9_blank_query_empty_result_witness:
  "SearchPage demoStore0 [CHR 0xC2, CHR 0xA0, CHR 0x20, CHR 0xE3, CHR 0x80, CHR 0x80, CHR 0x09] 0 10
     = Some ([], 0, 1, 0)
   \<and> SearchPage demoStore0 [] 3 10 = Some ([], 0, 3, 0)"
proof -
  have h: "set [[CHR 0xC2, CHR 0xA0], [CHR 0x20], [CHR 0xE3, CHR 0x80, CHR 0x80], [CHR 0x09]]
             \<subseteq> set whiteSpace"
    by (simp add: whiteSpace_def)
  have e: "set ([] :: string list) \<subseteq> set whiteSpace" by simp
  show ?thesis
    using C9_blank_query_empty_result [OF h, of demoStore0 0 10]
      C9_blank_query_empty_result [OF e, of demoStore0 3 10]
    by simp
qed

subsection \<open>Monotonicity of rank\<close>

lemma rank_antitone:
  assumes len: "length (ratingCounts s) = ratingRange"
    and nonneg: "\<forall>c \<in> set (ratingCounts s). 0 \<le> c"
    and le: "r1 \<le> r2"
  shows "\<exists>k1 k2. rank s r1 = Some k1 \<and> rank s r2 = Some k2 \<and> k2 \<le> k1"
proof -
  let ?f = "\<lambda>k. ratingCounts s ! nat (k - minRating)"
  have c: "clampRating r1 \<le> clampRating r2"
    using le by (simp add: clampRating_def)
  have sub: "{clampRating r2 + 1..maxRating} \<subseteq> {clampRating r1 + 1..maxRating}"
    using c by auto
  have pos: "\<And>k. k \<in> {clampRating r1 + 1..maxRating} \<Longrightarrow> 0 \<le> ?f k"
  proof -
    fix k assume "k \<in> {clampRating r1 + 1..maxRating}"
    then have "nat (k - minRating) < length (ratingCounts s)"
      using clampRating_range [of r1] len by auto
    then have "?f k \<in> set (ratingCounts s)" by simp
    then show "0 \<le> ?f k" using nonneg by blast
  qed
  have "sum ?f {clampRating r2 + 1..maxRating} \<le> sum ?f {clampRating r1 + 1..maxRating}"
    by (rule sum_mono2) (use sub pos in auto)
  then show ?thesis
    by (simp add: rank_eq [OF len])
qed

lemma rank_top: "maxRating \<le> r \<Longrightarrow> rank s r = Some 1"
  by (simp add: rank_def clampRating_def rank_loop.simps)

subsection \<open>The bucket table under insertion and removal\<close>

lemma insert_ok:
  assumes ok: "buckets_ok S rt B bi"
    and fresh: "uid \<notin> S"
    and r: "minRating \<le> r" "r \<le> maxRating"
    and len: "uid < length rt" "uid < length bi"
  shows "buckets_ok (insert uid S) (rt[uid := r])
           (B[nat (r - minRating) := B ! nat (r - minRating) @ [uid]])
           (bi[uid := length (B ! nat (r - minRating))])"
proof -
  let ?rn = "nat (r - minRating)"
  have lenB: "length B = ratingRange" using ok by (simp add: buckets_ok_def)
  have rn: "?rn < length B" using r lenB by simp
  have A: "\<And>x. x \<in> S \<Longrightarrow> minRating \<le> rt ! x \<and> rt ! x \<le> maxRating \<and>
        bi ! x < length (B ! nat (rt ! x - minRating)) \<and>
        B ! nat (rt ! x - minRating) ! (bi ! x) = x"
    using ok by (simp add: buckets_ok_def)
  have Bp: "\<And>q p. q < ratingRange \<Longrightarrow> p < length (B ! q) \<Longrightarrow>
        B ! q ! p \<in> S \<and> rt ! (B ! q ! p) = int q + minRating \<and> bi ! (B ! q ! p) = p"
    using ok by (simp add: buckets_ok_def)
  have nA: "\<And>x. x \<in> insert uid S \<Longrightarrow>
        minRating \<le> rt[uid := r] ! x \<and> rt[uid := r] ! x \<le> maxRating \<and>
        bi[uid := length (B ! ?rn)] ! x
          < length (B[?rn := B ! ?rn @ [uid]] ! nat (rt[uid := r] ! x - minRating)) \<and>
        B[?rn := B ! ?rn @ [uid]] ! nat (rt[uid := r] ! x - minRating)
          ! (bi[uid := length (B ! ?rn)] ! x) = x"
  proof -
    fix x assume x: "x \<in> insert uid S"
    show "minRating \<le> rt[uid := r] ! x \<and> rt[uid := r] ! x \<le> maxRating \<and>
        bi[uid := length (B ! ?rn)] ! x
          < length (B[?rn := B ! ?rn @ [uid]] ! nat (rt[uid := r] ! x - minRating)) \<and>
        B[?rn := B ! ?rn @ [uid]] ! nat (rt[uid := r] ! x - minRating)
          ! (bi[uid := length (B ! ?rn)] ! x) = x"
    proof (cases "x = uid")
      case True
      then show ?thesis using r len rn by simp
    next
      case False
      then have xs: "x \<in> S" using x by simp
      from A [OF xs] have bx: "nat (rt ! x - minRating) < length B"
        using lenB by auto
      show ?thesis
        using False A [OF xs] bx rn by (simp add: nth_list_update nth_append)
    qed
  qed
  have nB: "\<And>q p. q < ratingRange \<Longrightarrow> p < length (B[?rn := B ! ?rn @ [uid]] ! q) \<Longrightarrow>
        B[?rn := B ! ?rn @ [uid]] ! q ! p \<in> insert uid S \<and>
        rt[uid := r] ! (B[?rn := B ! ?rn @ [uid]] ! q ! p) = int q + minRating \<and>
        bi[uid := length (B ! ?rn)] ! (B[?rn := B ! ?rn @ [uid]] ! q ! p) = p"
  proof -
    fix q p assume q: "q < ratingRange" and p: "p < length (B[?rn := B ! ?rn @ [uid]] ! q)"
    show "B[?rn := B ! ?rn @ [uid]] ! q ! p \<in> insert uid S \<and>
        rt[uid := r] ! (B[?rn := B ! ?rn @ [uid]] ! q ! p) = int q + minRating \<and>
        bi[uid := length (B ! ?rn)] ! (B[?rn := B ! ?rn @ [uid]] ! q ! p) = p"
    proof (cases "q = ?rn \<and> p = length (B ! ?rn)")
      case True
      then show ?thesis using r len rn by simp
    next
      case False
      then have old: "p < length (B ! q)" and same: "B[?rn := B ! ?rn @ [uid]] ! q ! p = B ! q ! p"
        using p q rn lenB by (auto simp: nth_list_update nth_append split: if_splits)
      from Bp [OF q old] fresh have ne: "B ! q ! p \<noteq> uid" by auto
      show ?thesis using Bp [OF q old] same ne by simp
    qed
  qed
  show ?thesis
    unfolding buckets_ok_def using lenB nA nB by simp
qed


lemma remove_ok:
  assumes ok: "buckets_ok S rt B bi"
    and mem: "uid \<in> S"
    and inb: "\<forall>x \<in> S. x < length bi"
  defines "ro \<equiv> nat (rt ! uid - minRating)"
  defines "ob \<equiv> B ! ro"
  defines "l \<equiv> ob ! (length ob - 1)"
  shows "buckets_ok (S - {uid}) rt (B[ro := butlast (ob[bi ! uid := l])]) (bi[l := bi ! uid])"
proof -
  let ?p = "bi ! uid"
  let ?B' = "B[ro := butlast (ob[?p := l])]"
  let ?bi' = "bi[l := ?p]"
  have lenB: "length B = ratingRange" using ok by (simp add: buckets_ok_def)
  have A: "\<And>x. x \<in> S \<Longrightarrow> minRating \<le> rt ! x \<and> rt ! x \<le> maxRating \<and>
        bi ! x < length (B ! nat (rt ! x - minRating)) \<and>
        B ! nat (rt ! x - minRating) ! (bi ! x) = x"
    using ok by (simp add: buckets_ok_def)
  have Bp: "\<And>q p. q < ratingRange \<Longrightarrow> p < length (B ! q) \<Longrightarrow>
        B ! q ! p \<in> S \<and> rt ! (B ! q ! p) = int q + minRating \<and> bi ! (B ! q ! p) = p"
    using ok by (simp add: buckets_ok_def)
  have ro: "ro < ratingRange" and rtu: "rt ! uid = int ro + minRating"
    using A [OF mem] by (auto simp: ro_def)
  have p: "?p < length ob" and obp: "ob ! ?p = uid"
    using A [OF mem] by (simp_all add: ob_def ro_def)
  then have ne: "length ob - 1 < length ob" by simp
  have lS: "l \<in> S" and rtl: "rt ! l = int ro + minRating" and bil: "bi ! l = length ob - 1"
    using Bp [OF ro, of "length ob - 1"] ne by (simp_all add: l_def ob_def)
  have l_len: "l < length bi" using inb lS by blast
  have lenob': "length (butlast (ob[?p := l])) = length ob - 1" by simp
  have B'ro: "?B' ! ro = butlast (ob[?p := l])" using ro lenB by simp
  have B'other: "\<And>q. q \<noteq> ro \<Longrightarrow> ?B' ! q = B ! q" by simp
  have nth_ob': "\<And>q. q < length ob - 1 \<Longrightarrow>
        butlast (ob[?p := l]) ! q = (if q = ?p then l else ob ! q)"
    by (simp add: nth_butlast nth_list_update)
  have nA: "\<And>x. x \<in> S - {uid} \<Longrightarrow>
        minRating \<le> rt ! x \<and> rt ! x \<le> maxRating \<and>
        ?bi' ! x < length (?B' ! nat (rt ! x - minRating)) \<and>
        ?B' ! nat (rt ! x - minRating) ! (?bi' ! x) = x"
  proof -
    fix x assume "x \<in> S - {uid}"
    then have xS: "x \<in> S" and xu: "x \<noteq> uid" by auto
    let ?q = "nat (rt ! x - minRating)"
    note Ax = A [OF xS]
    show "minRating \<le> rt ! x \<and> rt ! x \<le> maxRating \<and>
        ?bi' ! x < length (?B' ! ?q) \<and> ?B' ! ?q ! (?bi' ! x) = x"
    proof (cases "x = l")
      case True
      have q: "?q = ro" using True rtl by simp
      have "?p \<noteq> length ob - 1" using obp xu True by (auto simp: l_def)
      then have pl: "?p < length ob - 1" using p by simp
      have "?bi' ! x = ?p" using True l_len by simp
      then show ?thesis
        using Ax q B'ro lenob' pl nth_ob' [OF pl] True by simp
    next
      case False
      then have bix: "?bi' ! x = bi ! x" by simp
      show ?thesis
      proof (cases "?q = ro")
        case True
        have bxl: "bi ! x < length ob" and obx: "ob ! (bi ! x) = x"
          using Ax True by (simp_all add: ob_def)
        have "bi ! x \<noteq> length ob - 1" using obx False by (auto simp: l_def)
        then have lt: "bi ! x < length ob - 1" using bxl by simp
        have "bi ! x \<noteq> ?p" using obx obp xu by auto
        then show ?thesis
          using Ax True B'ro lenob' lt nth_ob' [OF lt] bix obx by simp
      next
        case False
        then show ?thesis using Ax bix B'other [OF False] by simp
      qed
    qed
  qed
  have nB: "\<And>q k. q < ratingRange \<Longrightarrow> k < length (?B' ! q) \<Longrightarrow>
        ?B' ! q ! k \<in> S - {uid} \<and> rt ! (?B' ! q ! k) = int q + minRating \<and>
        ?bi' ! (?B' ! q ! k) = k"
  proof -
    fix q k assume q: "q < ratingRange" and k: "k < length (?B' ! q)"
    show "?B' ! q ! k \<in> S - {uid} \<and> rt ! (?B' ! q ! k) = int q + minRating \<and>
        ?bi' ! (?B' ! q ! k) = k"
    proof (cases "q = ro")
      case True
      have klt: "k < length ob - 1" using k True B'ro lenob' by simp
      then have kob: "k < length ob" by simp
      note Bk = Bp [OF ro, of k, folded ob_def, OF kob]
      show ?thesis
      proof (cases "k = ?p")
        case True
        have "l \<noteq> uid"
        proof
          assume "l = uid"
          then have "?p = length ob - 1" using bil by simp
          then show False using True klt by simp
        qed
        then show ?thesis
          using \<open>q = ro\<close> True B'ro nth_ob' [OF klt] lS rtl l_len by simp
      next
        case False
        have xu: "ob ! k \<noteq> uid" using Bk False by auto
        have xl: "ob ! k \<noteq> l" using Bk bil klt by auto
        show ?thesis
          using \<open>q = ro\<close> False B'ro nth_ob' [OF klt] Bk xu xl by simp
      qed
    next
      case False
      have kB: "k < length (B ! q)" using k B'other [OF False] by simp
      note Bk = Bp [OF q kB]
      have xu: "B ! q ! k \<noteq> uid" using Bk rtu False by auto
      have xl: "B ! q ! k \<noteq> l" using Bk rtl False by auto
      show ?thesis using B'other [OF False] Bk xu xl by simp
    qed
  qed
  show ?thesis
    unfolding buckets_ok_def using lenB nA nB by simp
qed


lemma sum_list_update_int:
  "i < length xs \<Longrightarrow> sum_list (xs[i := v]) = sum_list xs - xs ! i + (v :: int)"
  by (induction xs arbitrary: i) (auto split: nat.splits)

lemma nonempty_last_index: "i < length xs \<Longrightarrow> length xs - 1 < length xs"
  by (cases xs) auto

lemma nonempty_last_int:
  "i < length xs \<Longrightarrow>
   0 \<le> int (length xs) - 1 \<and> int (length xs) - 1 < int (length xs) \<and>
   nat (int (length xs) - 1) = length xs - 1"
  by (cases xs) auto

lemma store_inv_bucket_facts:
  assumes inv: "store_inv s" and uid: "uid < totalUsers s"
  shows "minRating \<le> ratings s ! uid" "ratings s ! uid \<le> maxRating"
    "bucketIndex s ! uid < length (ratingBuckets s ! nat (ratings s ! uid - minRating))"
    "ratingBuckets s ! nat (ratings s ! uid - minRating) ! (bucketIndex s ! uid) = uid"
    "ratingBuckets s ! nat (ratings s ! uid - minRating)
       ! (length (ratingBuckets s ! nat (ratings s ! uid - minRating)) - 1) < totalUsers s"
proof -
  let ?ob = "ratingBuckets s ! nat (ratings s ! uid - minRating)"
  have ok: "buckets_ok {..<totalUsers s} (ratings s) (ratingBuckets s) (bucketIndex s)"
    using inv by (simp add: store_inv_def)
  have m: "uid \<in> {..<totalUsers s}" using uid by simp
  from ok m show a: "minRating \<le> ratings s ! uid" "ratings s ! uid \<le> maxRating"
    "bucketIndex s ! uid < length ?ob" "?ob ! (bucketIndex s ! uid) = uid"
    unfolding buckets_ok_def by blast+
  have ro: "nat (ratings s ! uid - minRating) < ratingRange" using a(1,2) by auto
  have "length ?ob - 1 < length ?ob" by (rule nonempty_last_index [OF a(3)])
  with ok ro have "?ob ! (length ?ob - 1) \<in> {..<totalUsers s}"
    unfolding buckets_ok_def by blast
  then show "?ob ! (length ?ob - 1) < totalUsers s" by simp
qed

lemma updateUserRating_moves:
  assumes inv: "store_inv s" and uid: "uid < totalUsers s"
    and r: "minRating \<le> rNew" "rNew \<le> maxRating" and ne: "rNew \<noteq> ratings s ! uid"
  defines "ro \<equiv> nat (ratings s ! uid - minRating)"
  defines "rn \<equiv> nat (rNew - minRating)"
  defines "ob \<equiv> ratingBuckets s ! ro"
  defines "l \<equiv> ob ! (length ob - 1)"
  defines "B1 \<equiv> (ratingBuckets s)[ro := butlast (ob[bucketIndex s ! uid := l])]"
  defines "bi1 \<equiv> (bucketIndex s)[l := bucketIndex s ! uid]"
  defines "c1 \<equiv> (ratingCounts s)[ro := ratingCounts s ! ro - 1]"
  shows "updateUserRating s uid rNew =
           Some (s \<lparr> ratingBuckets := B1[rn := B1 ! rn @ [uid]],
                     bucketIndex := bi1[uid := length (B1 ! rn)],
                     ratingCounts := c1[rn := c1 ! rn + 1],
                     ratings := (ratings s)[uid := rNew] \<rparr>)"
proof -
  note f = store_inv_bucket_facts [OF inv uid]
  have lens: "length (ratings s) = totalUsers s" "length (bucketIndex s) = totalUsers s"
    "length (ratingBuckets s) = ratingRange" "length (ratingCounts s) = ratingRange"
    using inv by (simp_all add: store_inv_def buckets_ok_def counts_ok_def)
  have ro: "0 \<le> ratings s ! uid - minRating" "ratings s ! uid - minRating < int ratingRange"
    using f(1,2) by simp_all
  have rn: "0 \<le> rNew - minRating" "rNew - minRating < int ratingRange"
    using r by simp_all
  have p: "bucketIndex s ! uid < length ob" using f(3) by (simp add: ob_def ro_def)
  note obne = nonempty_last_int [OF p]
  have l: "l < length (bucketIndex s)" using f(5) lens by (simp add: l_def ob_def ro_def)
  have e1: "ati (ratingBuckets s) (ratings s ! uid - minRating) = Some ob"
    using ro lens by (simp add: ati_def ob_def ro_def)
  have e2: "ati ob (int (length ob) - 1) = Some l"
    using obne by (simp add: ati_def l_def)
  have e3: "puti (ratingBuckets s) (ratings s ! uid - minRating)
              (butlast (ob[bucketIndex s ! uid := l])) = Some B1"
    using ro lens by (simp add: puti_def B1_def ro_def)
  have e4: "ati B1 (rNew - minRating) = Some (B1 ! rn)"
    using rn lens by (simp add: ati_def B1_def rn_def)
  have e5: "puti B1 (rNew - minRating) (B1 ! rn @ [uid]) = Some (B1[rn := B1 ! rn @ [uid]])"
    using rn lens by (simp add: puti_def B1_def rn_def)
  have e6: "ati (ratingCounts s) (ratings s ! uid - minRating) = Some (ratingCounts s ! ro)"
    using ro lens by (simp add: ati_def ro_def)
  have e7: "puti (ratingCounts s) (ratings s ! uid - minRating) (ratingCounts s ! ro - 1) = Some c1"
    using ro lens by (simp add: puti_def c1_def ro_def)
  have e8: "ati c1 (rNew - minRating) = Some (c1 ! rn)"
    using rn lens by (simp add: ati_def c1_def rn_def)
  have e9: "puti c1 (rNew - minRating) (c1 ! rn + 1) = Some (c1[rn := c1 ! rn + 1])"
    using rn lens by (simp add: puti_def c1_def rn_def)
  show ?thesis
    using uid ne lens p l
    by (simp add: updateUserRating_def at_def put_def e1 e2 e3 e4 e5 e6 e7 e8 e9 bi1_def)
qed

lemma updateUserRating_inv:
  assumes inv: "store_inv s" and uid: "uid < totalUsers s"
    and r: "minRating \<le> rNew" "rNew \<le> maxRating"
  shows "\<exists>s'. updateUserRating s uid rNew = Some s' \<and> store_inv s' \<and>
           totalUsers s' = totalUsers s \<and> ratings s' = (ratings s)[uid := rNew] \<and>
           users s' = users s \<and> usernameLower s' = usernameLower s \<and>
           usernameIndex s' = usernameIndex s \<and> snapshot s' = snapshot s"
proof (cases "rNew = ratings s ! uid")
  case True
  have "uid < length (ratings s)" using inv uid by (simp add: store_inv_def)
  then have "updateUserRating s uid rNew = Some s"
    using True by (simp add: updateUserRating_def at_def)
  then show ?thesis using inv True by simp
next
  case False
  let ?N = "totalUsers s"
  let ?ro = "nat (ratings s ! uid - minRating)"
  let ?rn = "nat (rNew - minRating)"
  let ?ob = "ratingBuckets s ! ?ro"
  let ?l = "?ob ! (length ?ob - 1)"
  let ?B1 = "(ratingBuckets s)[?ro := butlast (?ob[bucketIndex s ! uid := ?l])]"
  let ?bi1 = "(bucketIndex s)[?l := bucketIndex s ! uid]"
  let ?c1 = "(ratingCounts s)[?ro := ratingCounts s ! ?ro - 1]"
  let ?B2 = "?B1[?rn := ?B1 ! ?rn @ [uid]]"
  let ?bi2 = "?bi1[uid := length (?B1 ! ?rn)]"
  let ?c2 = "?c1[?rn := ?c1 ! ?rn + 1]"
  let ?rt = "(ratings s)[uid := rNew]"
  let ?s' = "s \<lparr> ratingBuckets := ?B2, bucketIndex := ?bi2, ratingCounts := ?c2, ratings := ?rt \<rparr>"
  note f = store_inv_bucket_facts [OF inv uid]
  have lens: "length (users s) = ?N" "length (ratings s) = ?N" "length (usernameLower s) = ?N"
    "length (bucketIndex s) = ?N" "length (ratingBuckets s) = ratingRange"
    "length (ratingCounts s) = ratingRange"
    using inv by (simp_all add: store_inv_def buckets_ok_def counts_ok_def)
  have ok: "buckets_ok {..<?N} (ratings s) (ratingBuckets s) (bucketIndex s)"
    and cok: "counts_ok (ratingCounts s) (ratingBuckets s)"
    and sm: "sum_list (ratingCounts s) = int ?N"
    using inv by (simp_all add: store_inv_def)
  have ro: "?ro < ratingRange" using f(1,2) by auto
  have rn: "?rn < ratingRange" using r by auto
  have rne: "?ro \<noteq> ?rn" using False f(1) r by auto
  have res: "updateUserRating s uid rNew = Some ?s'"
    by (rule updateUserRating_moves [OF inv uid r False])
  have ok1: "buckets_ok ({..<?N} - {uid}) (ratings s) ?B1 ?bi1"
    by (rule remove_ok [OF ok]) (use uid lens in auto)
  have ok2: "buckets_ok (insert uid ({..<?N} - {uid})) ?rt ?B2 ?bi2"
    by (rule insert_ok [OF ok1]) (use uid lens r in auto)
  have seteq: "insert uid ({..<?N} - {uid}) = {..<?N}" using uid by auto
  have ok3: "buckets_ok {..<?N} ?rt ?B2 ?bi2" using ok2 unfolding seteq .
  have cnt: "\<And>q. q < ratingRange \<Longrightarrow> ratingCounts s ! q = int (length (ratingBuckets s ! q))"
    using cok by (simp add: counts_ok_def)
  have obne: "int (length ?ob - Suc 0) = int (length ?ob) - 1"
    using f(3) by (cases ?ob) auto
  have cok2: "counts_ok ?c2 ?B2"
    unfolding counts_ok_def
  proof (intro conjI allI impI)
    show "length ?c2 = ratingRange" using lens by simp
  next
    fix q assume q: "q < ratingRange"
    show "?c2 ! q = int (length (?B2 ! q))"
    proof (cases "q = ?rn")
      case True
      then show ?thesis using rn rne lens cnt [OF rn] by simp
    next
      case nrn: False
      show ?thesis
      proof (cases "q = ?ro")
        case True
        then show ?thesis using ro rne lens cnt [OF ro] obne by simp
      next
        case False
        then show ?thesis using nrn q lens cnt [OF q] by simp
      qed
    qed
  qed
  have sm2: "sum_list ?c2 = int ?N"
    using sm ro rn rne lens by (simp add: sum_list_update_int)
  have "store_inv ?s'"
    unfolding store_inv_def using lens ok3 cok2 sm2 by simp
  then show ?thesis using res by simp
qed

subsection \<open>The sort.Slice model sorts and permutes\<close>

lemma mset_sink: "mset (sink f x rs) = add_mset x (mset rs)"
  by (induction rs) auto

lemma set_sink: "set (sink f x rs) = insert x (set rs)"
  by (induction rs) auto

lemma mset_foldl_sink: "mset (foldl (\<lambda>rpre x. sink f x rpre) acc xs) = mset acc + mset xs"
  by (induction xs arbitrary: acc) (auto simp: mset_sink)

lemma mset_sort_Slice: "mset (sort_Slice f xs) = mset xs"
  by (simp add: sort_Slice_def insertionSortLess_def mset_foldl_sink)

lemma sorted_sink:
  assumes trans: "\<And>a b c. \<not> f a b \<Longrightarrow> \<not> f b c \<Longrightarrow> \<not> f a c"
    and asym: "\<And>a b. f a b \<Longrightarrow> \<not> f b a"
  shows "sorted_wrt (\<lambda>a b. \<not> f a b) rs \<Longrightarrow> sorted_wrt (\<lambda>a b. \<not> f a b) (sink f x rs)"
proof (induction rs)
  case Nil
  then show ?case by simp
next
  case (Cons y rs)
  show ?case
  proof (cases "f x y")
    case True
    have "\<forall>z \<in> set (sink f x rs). \<not> f y z"
      using Cons.prems asym [OF True] by (auto simp: set_sink)
    then show ?thesis using True Cons by simp
  next
    case False
    have "\<forall>z \<in> set rs. \<not> f x z"
      using Cons.prems trans [OF False] by auto
    then show ?thesis using False Cons.prems by simp
  qed
qed

lemma sorted_foldl_sink:
  assumes trans: "\<And>a b c. \<not> f a b \<Longrightarrow> \<not> f b c \<Longrightarrow> \<not> f a c"
    and asym: "\<And>a b. f a b \<Longrightarrow> \<not> f b a"
  shows "sorted_wrt (\<lambda>a b. \<not> f a b) acc \<Longrightarrow>
         sorted_wrt (\<lambda>a b. \<not> f a b) (foldl (\<lambda>rpre x. sink f x rpre) acc xs)"
proof (induction xs arbitrary: acc)
  case Nil
  then show ?case by simp
next
  case (Cons x xs)
  show ?case
    using Cons.IH [OF sorted_sink [OF trans asym Cons.prems]] by simp
qed

lemma sorted_sort_Slice:
  assumes trans: "\<And>a b c. \<not> f a b \<Longrightarrow> \<not> f b c \<Longrightarrow> \<not> f a c"
    and asym: "\<And>a b. f a b \<Longrightarrow> \<not> f b a"
  shows "sorted_wrt (\<lambda>a b. \<not> f b a) (sort_Slice f xs)"
proof -
  have "sorted_wrt (\<lambda>a b. \<not> f a b) (foldl (\<lambda>rpre x. sink f x rpre) [] xs)"
    by (rule sorted_foldl_sink [OF trans asym]) simp_all
  then show ?thesis
    by (simp add: sort_Slice_def insertionSortLess_def sorted_wrt_rev)
qed

lemma indexLess_not: "\<not> indexLess b a \<longleftrightarrow> indexLe a b"
  by (auto simp: indexLess_def indexLe_def)

lemma sorted_index_sort: "sorted_wrt indexLe (sort_Slice indexLess xs)"
proof -
  have "sorted_wrt (\<lambda>a b. \<not> indexLess b a) (sort_Slice indexLess xs)"
    by (rule sorted_sort_Slice) (auto simp: indexLess_def split: if_splits)
  then show ?thesis by (simp add: indexLess_not)
qed

lemma sorted_snapshot_sort:
  "sorted_wrt (\<lambda>a b. usernameLower s ! a \<le> usernameLower s ! b) (sort_Slice (snapshotLess s) xs)"
proof -
  have "sorted_wrt (\<lambda>a b. \<not> snapshotLess s b a) (sort_Slice (snapshotLess s) xs)"
    by (rule sorted_sort_Slice) (auto simp: snapshotLess_def)
  then show ?thesis by (simp add: snapshotLess_def not_less)
qed

subsection \<open>NewStore establishes the invariants\<close>

lemma sum_list_replicate_zero: "sum_list (replicate n (0 :: int)) = 0"
  by (induction n) auto

lemma seed_inv_empty: "seed_inv 0 (emptyStore n)"
  by (simp add: seed_inv_def emptyStore_def buckets_ok_def counts_ok_def
      sum_list_replicate_zero)

lemma seedStep_inv:
  assumes inv: "seed_inv k s" and k: "k < totalUsers s"
  shows "\<exists>s'. seedStep k seed s = Some s' \<and> seed_inv (Suc k) s' \<and> totalUsers s' = totalUsers s"
proof -
  let ?N = "totalUsers s"
  let ?r = "clampRating (SeedUser.Rating seed)"
  let ?rn = "nat (?r - minRating)"
  let ?lw = "strings_ToLower (SeedUser.Username seed)"
  let ?B = "ratingBuckets s"
  let ?s' = "s \<lparr> users := (users s)[k := \<lparr> User.ID = k, Username = SeedUser.Username seed \<rparr>],
                 ratings := (ratings s)[k := ?r],
                 usernameLower := (usernameLower s)[k := ?lw],
                 usernameIndex := (usernameIndex s)[k := \<lparr> UsernameLower = ?lw, UsernameIndex.ID = k \<rparr>],
                 ratingBuckets := ?B[?rn := ?B ! ?rn @ [k]],
                 bucketIndex := (bucketIndex s)[k := length (?B ! ?rn)],
                 ratingCounts := (ratingCounts s)[?rn := ratingCounts s ! ?rn + 1] \<rparr>"
  have lens: "length (users s) = ?N" "length (ratings s) = ?N" "length (usernameLower s) = ?N"
    "length (usernameIndex s) = ?N" "length (bucketIndex s) = ?N"
    "length (ratingBuckets s) = ratingRange" "length (ratingCounts s) = ratingRange"
    using inv by (simp_all add: seed_inv_def buckets_ok_def counts_ok_def)
  have ok: "buckets_ok {..<k} (ratings s) ?B (bucketIndex s)"
    and cok: "counts_ok (ratingCounts s) ?B"
    and sm: "sum_list (ratingCounts s) = int k"
    and ix: "\<And>uid. uid < k \<Longrightarrow> usernameIndex s ! uid
        = \<lparr> UsernameLower = usernameLower s ! uid, UsernameIndex.ID = uid \<rparr>"
    using inv by (simp_all add: seed_inv_def)
  note cr = clampRating_range [of "SeedUser.Rating seed"]
  have rn: "0 \<le> ?r - minRating" "?r - minRating < int ratingRange" "?rn < ratingRange"
    using cr by auto
  have res: "seedStep k seed s = Some ?s'"
    using k lens rn by (simp add: seedStep_def put_def at_def ati_def puti_def Let_def)
  have ok': "buckets_ok (insert k {..<k}) ((ratings s)[k := ?r]) (?B[?rn := ?B ! ?rn @ [k]])
               ((bucketIndex s)[k := length (?B ! ?rn)])"
    by (rule insert_ok [OF ok]) (use k lens cr in auto)
  have seteq: "insert k {..<k} = {..<Suc k}" by auto
  have ok2: "buckets_ok {..<Suc k} ((ratings s)[k := ?r]) (?B[?rn := ?B ! ?rn @ [k]])
               ((bucketIndex s)[k := length (?B ! ?rn)])"
    using ok' unfolding seteq .
  have cnt: "\<And>q. q < ratingRange \<Longrightarrow> ratingCounts s ! q = int (length (?B ! q))"
    using cok by (simp add: counts_ok_def)
  have cok2: "counts_ok ((ratingCounts s)[?rn := ratingCounts s ! ?rn + 1]) (?B[?rn := ?B ! ?rn @ [k]])"
    unfolding counts_ok_def using lens rn cnt by (auto simp: nth_list_update)
  have sm2: "sum_list ((ratingCounts s)[?rn := ratingCounts s ! ?rn + 1]) = int (Suc k)"
    using sm rn lens by (simp add: sum_list_update_int)
  have ix2: "\<forall>uid < Suc k. (usernameIndex s)[k := \<lparr> UsernameLower = ?lw, UsernameIndex.ID = k \<rparr>] ! uid
        = \<lparr> UsernameLower = (usernameLower s)[k := ?lw] ! uid, UsernameIndex.ID = uid \<rparr>"
    using k lens ix by (auto simp: nth_list_update less_Suc_eq)
  have "seed_inv (Suc k) ?s'"
    unfolding seed_inv_def using k lens ok2 cok2 sm2 ix2 by simp
  then show ?thesis using res by simp
qed

lemma seedLoop_inv:
  "seed_inv k s \<Longrightarrow> k + length seeds = totalUsers s \<Longrightarrow>
   \<exists>s'. seedLoop k seeds s = Some s' \<and> seed_inv (totalUsers s) s' \<and> totalUsers s' = totalUsers s"
proof (induction seeds arbitrary: k s)
  case Nil
  then show ?case by simp
next
  case (Cons seed seeds)
  have k: "k < totalUsers s" using Cons.prems(2) by simp
  from seedStep_inv [OF Cons.prems(1) k, of seed]
  obtain s1 where s1: "seedStep k seed s = Some s1" "seed_inv (Suc k) s1" "totalUsers s1 = totalUsers s"
    by blast
  have "Suc k + length seeds = totalUsers s1" using Cons.prems(2) s1(3) by simp
  from Cons.IH [OF s1(2) this] s1 show ?case by simp
qed

lemma seed_inv_final:
  assumes "seed_inv (totalUsers s) s"
  shows "store_inv s"
    and "usernameIndex s = map (\<lambda>uid. \<lparr> UsernameLower = usernameLower s ! uid, UsernameIndex.ID = uid \<rparr>)
                              [0..<totalUsers s]"
proof -
  show "store_inv s" using assms by (simp add: seed_inv_def store_inv_def)
  show "usernameIndex s = map (\<lambda>uid. \<lparr> UsernameLower = usernameLower s ! uid, UsernameIndex.ID = uid \<rparr>)
                              [0..<totalUsers s]"
    using assms by (auto simp: seed_inv_def list_eq_iff_nth_eq)
qed

lemma NewStore_inv:
  "\<exists>s. NewStore seeds = Some s \<and> store_inv s \<and> index_inv s \<and> totalUsers s = length seeds"
proof -
  have e: "seed_inv 0 (emptyStore (length seeds))" by (rule seed_inv_empty)
  have t: "totalUsers (emptyStore (length seeds)) = length seeds" by (simp add: emptyStore_def)
  from seedLoop_inv [OF e, of seeds] t
  obtain s1 where s1: "seedLoop 0 seeds (emptyStore (length seeds)) = Some s1"
    "seed_inv (length seeds) s1" "totalUsers s1 = length seeds"
    by auto
  let ?s = "s1 \<lparr> usernameIndex := sort_Slice indexLess (usernameIndex s1), snapshot := [] \<rparr>"
  have si: "seed_inv (totalUsers s1) s1" using s1 by simp
  have res: "NewStore seeds = Some ?s" using s1 by (simp add: NewStore_def)
  have inv: "store_inv ?s" using seed_inv_final(1) [OF si] by (simp add: store_inv_def)
  have idx: "index_inv ?s"
    using seed_inv_final(2) [OF si] by (simp add: index_inv_def sorted_index_sort mset_sort_Slice)
  show ?thesis using res inv idx s1(3) by simp
qed

lemma NewStore_total: "NewStore seeds = Some s \<Longrightarrow> store_inv s \<and> index_inv s \<and> totalUsers s = length seeds"
  using NewStore_inv [of seeds] by auto

subsection \<open>Reachable stores satisfy the invariants; updateUserRating preserves them\<close>

lemma updateUserRating_Some_valid:
  assumes res: "updateUserRating s uid r = Some s'" and inv: "store_inv s"
  shows "uid < totalUsers s \<and> (r = ratings s ! uid \<or> (minRating \<le> r \<and> r \<le> maxRating))"
proof -
  have lens: "length (ratings s) = totalUsers s" "length (ratingBuckets s) = ratingRange"
    using inv by (simp_all add: store_inv_def buckets_ok_def)
  have uid: "uid < totalUsers s"
    using res lens by (auto simp: updateUserRating_def at_def split: if_splits)
  have "minRating \<le> r \<and> r \<le> maxRating" if ne: "r \<noteq> ratings s ! uid"
  proof (rule ccontr)
    assume out: "\<not> (minRating \<le> r \<and> r \<le> maxRating)"
    have "\<And>B1. length B1 = ratingRange \<Longrightarrow> ati B1 (r - minRating) = None"
      using out by (auto simp: ati_def)
    then have "updateUserRating s uid r = None"
      using ne uid lens out
      by (auto simp: updateUserRating_def at_def put_def puti_def Let_def
          split: Option.bind_splits if_splits)
    then show False using res by simp
  qed
  then show ?thesis using uid by blast
qed

lemma updateUserRating_reach:
  assumes res: "updateUserRating s uid r = Some s'" and inv: "store_inv s"
  shows "store_inv s' \<and> totalUsers s' = totalUsers s \<and> usernameLower s' = usernameLower s \<and>
         usernameIndex s' = usernameIndex s \<and> users s' = users s"
proof -
  from updateUserRating_Some_valid [OF res inv]
  have uid: "uid < totalUsers s" and r: "r = ratings s ! uid \<or> (minRating \<le> r \<and> r \<le> maxRating)"
    by auto
  show ?thesis
  proof (cases "r = ratings s ! uid")
    case True
    have "uid < length (ratings s)" using inv uid by (simp add: store_inv_def)
    then have "updateUserRating s uid r = Some s"
      using True by (simp add: updateUserRating_def at_def)
    then show ?thesis using res inv by simp
  next
    case False
    then have rr: "minRating \<le> r" "r \<le> maxRating" using r by auto
    from updateUserRating_inv [OF inv uid rr] res show ?thesis by auto
  qed
qed

lemma index_inv_cong:
  "index_inv s \<Longrightarrow> totalUsers s' = totalUsers s \<Longrightarrow> usernameLower s' = usernameLower s \<Longrightarrow>
   usernameIndex s' = usernameIndex s \<Longrightarrow> index_inv s'"
  by (simp add: index_inv_def)

lemma RefreshSnapshot_reach:
  assumes "RefreshSnapshot s = Some s'"
  shows "s' = s \<lparr> snapshot := snapshot s' \<rparr>"
  using assms by (auto simp: RefreshSnapshot_def split: Option.bind_splits)

lemma store_inv_snapshot: "store_inv (s \<lparr> snapshot := x \<rparr>) = store_inv s"
  by (simp add: store_inv_def)

lemma index_inv_snapshot: "index_inv (s \<lparr> snapshot := x \<rparr>) = index_inv s"
  by (simp add: index_inv_def)

lemma reachable_inv: "reachable s \<Longrightarrow> store_inv s \<and> index_inv s"
proof (induction rule: reachable.induct)
  case (seeded seeds s)
  then show ?case using NewStore_total by blast
next
  case (updated s uid newRating s')
  then show ?case using updateUserRating_reach index_inv_cong by blast
next
  case (refreshed s s')
  from RefreshSnapshot_reach [OF refreshed.hyps(2)]
  obtain x where "s' = s \<lparr> snapshot := x \<rparr>" by blast
  then show ?case using refreshed.IH by (simp add: store_inv_snapshot index_inv_snapshot)
qed

lemma store_inv_unique_slot:
  assumes inv: "store_inv s" and x: "x < totalUsers s" and r: "r < ratingRange"
  shows "(p < length (ratingBuckets s ! r) \<and> ratingBuckets s ! r ! p = x)
         \<longleftrightarrow> (int r = ratings s ! x - minRating \<and> p = bucketIndex s ! x)"
proof
  have ok: "buckets_ok {..<totalUsers s} (ratings s) (ratingBuckets s) (bucketIndex s)"
    using inv by (simp add: store_inv_def)
  {
    assume "p < length (ratingBuckets s ! r) \<and> ratingBuckets s ! r ! p = x"
    then show "int r = ratings s ! x - minRating \<and> p = bucketIndex s ! x"
      using ok r unfolding buckets_ok_def by auto
  next
    assume a: "int r = ratings s ! x - minRating \<and> p = bucketIndex s ! x"
    then have "r = nat (ratings s ! x - minRating)" by auto
    then show "p < length (ratingBuckets s ! r) \<and> ratingBuckets s ! r ! p = x"
      using ok x a unfolding buckets_ok_def by auto
  }
qed

lemma demoStore0_inv: "store_inv demoStore0 \<and> index_inv demoStore0 \<and> reachable demoStore0"
  using NewStore_total [OF demoStore0_seeded] reachable.seeded [OF demoStore0_seeded] by simp

lemma demoStore1_inv: "store_inv demoStore1 \<and> index_inv demoStore1 \<and> reachable demoStore1"
  using reachable_inv [OF reachable.updated [OF _ demoStore1_updated]] demoStore0_inv
    reachable.updated [OF _ demoStore1_updated]
  by blast

text \<open>
  C4: in a store that satisfies the invariants, every call \<open>updateUserRating uid rNew\<close>
  with a valid id and \<open>rNew\<close> in [100, 5000] returns (no panic) a store that satisfies
  them again: each id appears in exactly one bucket slot, the one in the bucket of its
  current rating at the position of its back-reference; every counter equals the length
  of its bucket; and the counters sum to the unchanged user count \<open>N\<close>.
\<close>

theorem C4_updateUserRating_preserves_invariants:
  assumes "store_inv s" and "uid < totalUsers s" and "minRating \<le> rNew" and "rNew \<le> maxRating"
  shows "\<exists>s'. updateUserRating s uid rNew = Some s' \<and> store_inv s' \<and>
           totalUsers s' = totalUsers s \<and> ratings s' ! uid = rNew \<and>
           (\<forall>x < totalUsers s'. \<forall>r < ratingRange. \<forall>p.
              (p < length (ratingBuckets s' ! r) \<and> ratingBuckets s' ! r ! p = x)
              \<longleftrightarrow> (int r = ratings s' ! x - minRating \<and> p = bucketIndex s' ! x)) \<and>
           (\<forall>r < ratingRange. ratingCounts s' ! r = int (length (ratingBuckets s' ! r))) \<and>
           sum_list (ratingCounts s') = int (totalUsers s')"
proof -
  from updateUserRating_inv [OF assms]
  obtain s' where s': "updateUserRating s uid rNew = Some s'" "store_inv s'"
    "totalUsers s' = totalUsers s" "ratings s' = (ratings s)[uid := rNew]"
    by blast
  have len: "length (ratings s) = totalUsers s" using assms(1) by (simp add: store_inv_def)
  have r: "ratings s' ! uid = rNew" using s'(4) len assms(2) by simp
  have slots: "\<forall>x < totalUsers s'. \<forall>r < ratingRange. \<forall>p.
              (p < length (ratingBuckets s' ! r) \<and> ratingBuckets s' ! r ! p = x)
              \<longleftrightarrow> (int r = ratings s' ! x - minRating \<and> p = bucketIndex s' ! x)"
    using store_inv_unique_slot [OF s'(2)] by blast
  have cnt: "\<forall>r < ratingRange. ratingCounts s' ! r = int (length (ratingBuckets s' ! r))"
    and sm: "sum_list (ratingCounts s') = int (totalUsers s')"
    using s'(2) by (simp_all add: store_inv_def counts_ok_def)
  show ?thesis using s' r slots cnt sm by blast
qed

theorem C4_updateUserRating_preserves_invariants_witness:
  "store_inv demoStore0 \<and> updateUserRating demoStore0 0 200 = Some demoStore1 \<and>
   store_inv demoStore1 \<and> ratings demoStore1 ! 0 = 200 \<and>
   sum_list (ratingCounts demoStore1) = 2"
proof -
  have inv: "store_inv demoStore0" using demoStore0_inv by simp
  have u: "0 < totalUsers demoStore0" by (simp add: demoStore0_def)
  have t: "totalUsers demoStore1 = 2" by (simp add: demoStore1_def)
  from C4_updateUserRating_preserves_invariants [OF inv u, of 200] demoStore1_updated t
  show ?thesis using inv by auto
qed

subsection \<open>Rank is antitone\<close>

lemma store_inv_counts_nonneg:
  assumes "store_inv s"
  shows "length (ratingCounts s) = ratingRange" and "\<forall>c \<in> set (ratingCounts s). 0 \<le> c"
proof -
  have cok: "counts_ok (ratingCounts s) (ratingBuckets s)"
    using assms by (simp add: store_inv_def)
  then show "length (ratingCounts s) = ratingRange" by (simp add: counts_ok_def)
  with cok show "\<forall>c \<in> set (ratingCounts s). 0 \<le> c"
    by (auto simp: counts_ok_def in_set_conv_nth)
qed

text \<open>
  C10: for a fixed state of the counters (4901 of them, none negative, as bucket sizes
  are), \<open>rank\<close> is antitone in the rating: \<open>r1 \<le> r2\<close> gives \<open>rank r1 \<ge> rank r2\<close>; and
  \<open>rank r = 1\<close> for every \<open>r \<ge> 5000\<close>.
\<close>

theorem C10_rank_antitone:
  assumes "length (ratingCounts s) = ratingRange" and "\<forall>c \<in> set (ratingCounts s). 0 \<le> c"
  shows "(r1 \<le> r2 \<longrightarrow> (\<exists>k1 k2. rank s r1 = Some k1 \<and> rank s r2 = Some k2 \<and> k2 \<le> k1))
       \<and> (maxRating \<le> r \<longrightarrow> rank s r = Some 1)"
  using rank_antitone [OF assms] rank_top by blast

theorem C10_rank_antitone_witness:
  "(\<exists>k1 k2. rank demoStore1 150 = Some k1 \<and> rank demoStore1 300 = Some k2 \<and> k2 \<le> k1)
   \<and> rank demoStore1 6000 = Some 1"
proof -
  have inv: "store_inv demoStore1" using demoStore1_inv by simp
  show ?thesis
    using C10_rank_antitone [OF store_inv_counts_nonneg [OF inv], of 150 300 6000] by simp
qed

subsection \<open>buildSnapshot: a permutation of the ids, sorted by rating and name\<close>

lemma mset_sortedBucket: "mset (sortedBucket s b) = mset b"
  by (simp add: sortedBucket_def mset_sort_Slice)

lemma set_sortedBucket: "set (sortedBucket s b) = set b"
  using mset_sortedBucket [of s b] by (metis set_mset_mset)

lemma sorted_sortedBucket:
  "sorted_wrt (\<lambda>a b. usernameLower s ! a \<le> usernameLower s ! b) (sortedBucket s b)"
proof (cases "length b > 1")
  case True
  then show ?thesis by (simp add: sortedBucket_def sorted_snapshot_sort)
next
  case False
  then have "b = [] \<or> (\<exists>x. b = [x])"
    by (cases b) (auto simp: length_Suc_conv)
  then show ?thesis using False by (auto simp: sortedBucket_def)
qed

lemma buildSnapshot_loop_eq:
  assumes lenB: "length (ratingBuckets s) = ratingRange"
    and ids: "\<forall>q < ratingRange. \<forall>x \<in> set (ratingBuckets s ! q). x < length (usernameLower s)"
  shows "n \<le> ratingRange \<Longrightarrow>
         buildSnapshot_loop s (99 + int n) snap
           = Some (snap @ concat (map (\<lambda>q. sortedBucket s (ratingBuckets s ! q)) (rev [0..<n])))"
proof (induction n arbitrary: snap)
  case 0
  show ?case by (subst buildSnapshot_loop.simps) simp
next
  case (Suc n)
  let ?b = "ratingBuckets s ! n"
  have n: "n < ratingRange" using Suc.prems by simp
  have rd: "ati (ratingBuckets s) (99 + int (Suc n) - minRating) = Some ?b"
    using n lenB by (simp add: ati_def)
  have idb: "\<forall>x \<in> set ?b. x < length (usernameLower s)" using ids n by blast
  have step: "buildSnapshot_loop s (99 + int (Suc n)) snap
                = buildSnapshot_loop s (99 + int n) (snap @ sortedBucket s ?b)"
    using rd idb
    by (subst buildSnapshot_loop.simps) (auto simp: sortedBucket_def)
  show ?case
    using Suc.IH [of "snap @ sortedBucket s ?b"] n step by simp
qed

lemma buildSnapshot_eq:
  assumes inv: "store_inv s"
  shows "buildSnapshot s
           = Some (concat (map (\<lambda>q. sortedBucket s (ratingBuckets s ! q)) (rev [0..<ratingRange])))"
proof -
  have ok: "buckets_ok {..<totalUsers s} (ratings s) (ratingBuckets s) (bucketIndex s)"
    and lenl: "length (usernameLower s) = totalUsers s"
    using inv by (simp_all add: store_inv_def)
  have lenB: "length (ratingBuckets s) = ratingRange" using ok by (simp add: buckets_ok_def)
  have ids: "\<forall>q < ratingRange. \<forall>x \<in> set (ratingBuckets s ! q). x < length (usernameLower s)"
    using ok lenl by (auto simp: buckets_ok_def in_set_conv_nth)
  show ?thesis
    using buildSnapshot_loop_eq [OF lenB ids, of ratingRange "[]"]
    by (simp add: buildSnapshot_def)
qed

lemma mset_concat_sortedBuckets:
  "mset (concat (map (\<lambda>q. sortedBucket s (B ! q)) (rev [0..<n])))
     = mset (concat (map (\<lambda>q. B ! q) [0..<n]))"
  by (induction n) (simp_all add: mset_sortedBucket)

lemma length_concat_buckets:
  assumes cok: "counts_ok cnt B" and lenB: "length B = ratingRange"
  shows "int (length (concat B)) = sum_list cnt"
proof -
  have "map (\<lambda>b. int (length b)) B = cnt"
    using cok lenB by (auto simp: counts_ok_def list_eq_iff_nth_eq)
  then have "sum_list cnt = sum_list (map (\<lambda>b. int (length b)) B)" by simp
  also have "\<dots> = int (sum_list (map length B))"
    by (induction B) simp_all
  finally show ?thesis by (simp add: length_concat)
qed

lemma concat_buckets_perm:
  assumes inv: "store_inv s"
  shows "mset (concat (ratingBuckets s)) = mset [0..<totalUsers s]"
proof -
  let ?B = "ratingBuckets s"
  let ?N = "totalUsers s"
  have ok: "buckets_ok {..<?N} (ratings s) ?B (bucketIndex s)"
    and cok: "counts_ok (ratingCounts s) ?B"
    and sm: "sum_list (ratingCounts s) = int ?N"
    using inv by (simp_all add: store_inv_def)
  have lenB: "length ?B = ratingRange" using ok by (simp add: buckets_ok_def)
  have len: "length (concat ?B) = ?N"
    using length_concat_buckets [OF cok lenB] sm by simp
  have sub: "set (concat ?B) \<subseteq> {..<?N}"
  proof
    fix x assume "x \<in> set (concat ?B)"
    then obtain b where b: "b \<in> set ?B" "x \<in> set b" by auto
    then obtain q p where "q < length ?B" "b = ?B ! q" "p < length b" "x = b ! p"
      by (auto simp: in_set_conv_nth)
    then show "x \<in> {..<?N}" using ok lenB unfolding buckets_ok_def by auto
  qed
  have sup: "{..<?N} \<subseteq> set (concat ?B)"
  proof
    fix x assume x: "x \<in> {..<?N}"
    let ?q = "nat (ratings s ! x - minRating)"
    from ok x have f: "minRating \<le> ratings s ! x" "ratings s ! x \<le> maxRating"
      "bucketIndex s ! x < length (?B ! ?q)" "?B ! ?q ! (bucketIndex s ! x) = x"
      unfolding buckets_ok_def by blast+
    have q: "?q < length ?B" using f(1,2) lenB by auto
    have "x \<in> set (?B ! ?q)" using f(3,4) by (metis nth_mem)
    moreover have "?B ! ?q \<in> set ?B" using q by simp
    ultimately show "x \<in> set (concat ?B)" by auto
  qed
  have seteq: "set (concat ?B) = {..<?N}" using sub sup by blast
  have "card (set (concat ?B)) = length (concat ?B)" using seteq len by simp
  then have "distinct (concat ?B)" by (rule card_distinct)
  moreover have "distinct [0..<?N]" by simp
  moreover have "set (concat ?B) = set [0..<?N]" using seteq by auto
  ultimately show ?thesis using set_eq_iff_mset_eq_distinct by blast
qed

lemma snapshot_perm:
  assumes inv: "store_inv s"
  shows "mset (concat (map (\<lambda>q. sortedBucket s (ratingBuckets s ! q)) (rev [0..<ratingRange])))
           = mset [0..<totalUsers s]"
proof -
  have lenB: "length (ratingBuckets s) = ratingRange"
    using inv by (simp add: store_inv_def buckets_ok_def)
  have "map (\<lambda>q. ratingBuckets s ! q) [0..<ratingRange] = ratingBuckets s"
    using map_nth [of "ratingBuckets s"] lenB by simp
  then show ?thesis
    using mset_concat_sortedBuckets [of s "ratingBuckets s" ratingRange]
      concat_buckets_perm [OF inv] by simp
qed

lemma snapshot_sorted_upto:
  assumes ok: "buckets_ok S (ratings s) (ratingBuckets s) bi"
  shows "n \<le> ratingRange \<Longrightarrow>
         sorted_wrt (snapshotLe2 s)
           (concat (map (\<lambda>q. sortedBucket s (ratingBuckets s ! q)) (rev [0..<n])))
       \<and> (\<forall>x \<in> set (concat (map (\<lambda>q. sortedBucket s (ratingBuckets s ! q)) (rev [0..<n]))).
             ratings s ! x < int n + minRating)"
proof (induction n)
  case 0
  show ?case by simp
next
  case (Suc n)
  let ?g = "\<lambda>q. sortedBucket s (ratingBuckets s ! q)"
  let ?rest = "concat (map ?g (rev [0..<n]))"
  have n: "n < ratingRange" using Suc.prems by simp
  have IH: "sorted_wrt (snapshotLe2 s) ?rest" "\<forall>x \<in> set ?rest. ratings s ! x < int n + minRating"
    using Suc.IH n by simp_all
  have rt: "\<forall>x \<in> set (?g n). ratings s ! x = int n + minRating"
    using ok n unfolding buckets_ok_def by (auto simp: set_sortedBucket in_set_conv_nth)
  have "sorted_wrt (\<lambda>a b. usernameLower s ! a \<le> usernameLower s ! b) (?g n)"
    by (rule sorted_sortedBucket)
  then have blk: "sorted_wrt (snapshotLe2 s) (?g n)"
    using rt by (auto simp: sorted_wrt_iff_nth_less snapshotLe2_def)
  have cross: "\<forall>x \<in> set (?g n). \<forall>y \<in> set ?rest. snapshotLe2 s x y"
    using rt IH(2) by (auto simp: snapshotLe2_def)
  have "sorted_wrt (snapshotLe2 s) (?g n @ ?rest)"
    using blk IH(1) cross by (simp add: sorted_wrt_append)
  moreover have "\<forall>x \<in> set (?g n @ ?rest). ratings s ! x < int (Suc n) + minRating"
  proof
    fix x assume "x \<in> set (?g n @ ?rest)"
    then have "x \<in> set (?g n) \<or> x \<in> set ?rest" by simp
    then have "ratings s ! x \<le> int n + minRating"
      using rt IH(2) by fastforce
    then show "ratings s ! x < int (Suc n) + minRating" by simp
  qed
  ultimately show ?case by simp
qed

lemma sorted_full_if_distinct_lower:
  assumes srt: "sorted_wrt (snapshotLe2 s) snap" and d: "distinct snap"
    and inj: "distinct (usernameLower s)" and rng: "\<forall>x \<in> set snap. x < length (usernameLower s)"
  shows "sorted_wrt (snapshotLe s) snap"
proof -
  have "\<And>i j. i < j \<Longrightarrow> j < length snap \<Longrightarrow> snapshotLe s (snap ! i) (snap ! j)"
  proof -
    fix i j assume ij: "i < j" "j < length snap"
    then have le2: "snapshotLe2 s (snap ! i) (snap ! j)"
      using srt by (simp add: sorted_wrt_iff_nth_less)
    have ne: "snap ! i \<noteq> snap ! j"
      using d ij by (simp add: nth_eq_iff_index_eq)
    have "snap ! i < length (usernameLower s)" "snap ! j < length (usernameLower s)"
      using rng ij by simp_all
    then have "usernameLower s ! (snap ! i) \<noteq> usernameLower s ! (snap ! j)"
      using inj ne by (simp add: nth_eq_iff_index_eq)
    then show "snapshotLe s (snap ! i) (snap ! j)"
      using le2 by (auto simp: snapshotLe_def snapshotLe2_def)
  qed
  then show ?thesis by (simp add: sorted_wrt_iff_nth_less)
qed

lemma buildSnapshot_correct:
  assumes inv: "store_inv s"
  shows "\<exists>snap. buildSnapshot s = Some snap \<and> mset snap = mset [0..<totalUsers s] \<and>
           sorted_wrt (snapshotLe2 s) snap \<and>
           (distinct (usernameLower s) \<longrightarrow> sorted_wrt (snapshotLe s) snap)"
proof -
  let ?snap = "concat (map (\<lambda>q. sortedBucket s (ratingBuckets s ! q)) (rev [0..<ratingRange]))"
  have ok: "buckets_ok {..<totalUsers s} (ratings s) (ratingBuckets s) (bucketIndex s)"
    and lenl: "length (usernameLower s) = totalUsers s"
    using inv by (simp_all add: store_inv_def)
  have b: "buildSnapshot s = Some ?snap" by (rule buildSnapshot_eq [OF inv])
  have p: "mset ?snap = mset [0..<totalUsers s]" by (rule snapshot_perm [OF inv])
  have s2: "sorted_wrt (snapshotLe2 s) ?snap"
    using snapshot_sorted_upto [OF ok, of ratingRange] by simp
  have d: "distinct ?snap"
    using p by (metis distinct_upt mset_eq_imp_distinct_iff)
  have rng: "\<forall>x \<in> set ?snap. x < length (usernameLower s)"
    using p lenl by (metis atLeastLessThan_iff mset_eq_setD set_upt)
  have "distinct (usernameLower s) \<longrightarrow> sorted_wrt (snapshotLe s) ?snap"
    using sorted_full_if_distinct_lower [OF s2 d _ rng] by blast
  then show ?thesis using b p s2 by blast
qed

lemma toLower_demoB: "strings_ToLower ''bob'' = ''bob''" "strings_ToLower ''Al'' = ''al''"
  by code_simp+

lemma string_cmp_demoB: "''al'' < ''bob''" "\<not> ''bob'' < ''al''" "''al'' \<noteq> ''bob''"
  by code_simp+

lemma demoStoreB_seeded: "NewStore demoSeedsB = Some demoStoreB"
  by (simp add: NewStore_def demoSeedsB_def emptyStore_def seedStep_def put_def at_def ati_def
      puti_def clampRating_def toLower_demoB sort_Slice_def insertionSortLess_def indexLess_def
      string_cmp_demoB demoStoreB_def)

lemma demoStoreB_inv: "store_inv demoStoreB \<and> index_inv demoStoreB \<and> reachable demoStoreB"
  using NewStore_total [OF demoStoreB_seeded] reachable.seeded [OF demoStoreB_seeded] by simp

lemma concat_single_block:
  "k < n \<Longrightarrow> (\<forall>q < n. q \<noteq> k \<longrightarrow> g q = []) \<Longrightarrow> concat (map g (rev [0..<n])) = g k"
proof (induction n)
  case 0
  then show ?case by simp
next
  case (Suc n)
  show ?case
  proof (cases "k = n")
    case True
    have "\<forall>q \<in> set (rev [0..<n]). g q = []" using Suc.prems True by auto
    then have "concat (map g (rev [0..<n])) = []" by simp
    then show ?thesis using True by simp
  next
    case False
    then have "k < n" using Suc.prems by simp
    moreover have "g n = []" using Suc.prems False by auto
    ultimately show ?thesis using Suc by simp
  qed
qed

lemma demoStore1_snapshot: "buildSnapshot demoStore1 = Some [1, 0]"
proof -
  let ?g = "\<lambda>q. sortedBucket demoStore1 (ratingBuckets demoStore1 ! q)"
  have inv: "store_inv demoStore1" using demoStore1_inv by simp
  have emp: "\<forall>q < ratingRange. q \<noteq> 100 \<longrightarrow> ?g q = []"
    by (simp add: demoStore1_def sortedBucket_def nth_list_update)
  have blk: "?g 100 = [1, 0]"
    by (simp add: demoStore1_def sortedBucket_def sort_Slice_def insertionSortLess_def
        snapshotLess_def)
  have "concat (map ?g (rev [0..<ratingRange])) = ?g 100"
    by (rule concat_single_block [OF _ emp]) simp
  then show ?thesis using buildSnapshot_eq [OF inv] blk by simp
qed

lemma demoStoreB_snapshot: "buildSnapshot demoStoreB = Some [1, 0]"
proof -
  let ?g = "\<lambda>q. sortedBucket demoStoreB (ratingBuckets demoStoreB ! q)"
  have inv: "store_inv demoStoreB" using demoStoreB_inv by simp
  have emp: "\<forall>q < ratingRange. q \<noteq> 1400 \<longrightarrow> ?g q = []"
    by (simp add: demoStoreB_def sortedBucket_def nth_list_update)
  have blk: "?g 1400 = [1, 0]"
    by (simp add: demoStoreB_def sortedBucket_def sort_Slice_def insertionSortLess_def
        snapshotLess_def string_cmp_demoB)
  have "concat (map ?g (rev [0..<ratingRange])) = ?g 1400"
    by (rule concat_single_block [OF _ emp]) simp
  then show ?thesis using buildSnapshot_eq [OF inv] blk by simp
qed


text \<open>
  What \<open>buildSnapshot\<close> does guarantee in every reachable store: it returns, and
  \<open>RefreshSnapshot\<close> publishes, a permutation of the ids \<open>[0, N)\<close> sorted by descending
  rating, then ascending \<open>usernameLower\<close>; when the \<open>usernameLower\<close> values are pairwise
  distinct this is the full order by (rating descending, \<open>usernameLower\<close>, id).
\<close>

lemma buildSnapshot_perm_sorted:
  assumes "reachable s"
  shows "\<exists>snap. buildSnapshot s = Some snap \<and>
           RefreshSnapshot s = Some (s \<lparr> snapshot := snap \<rparr>) \<and>
           mset snap = mset [0..<totalUsers s] \<and>
           sorted_wrt (snapshotLe2 s) snap \<and>
           (distinct (usernameLower s) \<longrightarrow> sorted_wrt (snapshotLe s) snap)"
proof -
  have inv: "store_inv s" using reachable_inv [OF assms] by simp
  from buildSnapshot_correct [OF inv] obtain snap where
    "buildSnapshot s = Some snap" "mset snap = mset [0..<totalUsers s]"
    "sorted_wrt (snapshotLe2 s) snap"
    "distinct (usernameLower s) \<longrightarrow> sorted_wrt (snapshotLe s) snap"
    by blast
  then show ?thesis by (auto simp: RefreshSnapshot_def)
qed

lemma buildSnapshot_perm_sorted_demo:
  "reachable demoStore1 \<and> buildSnapshot demoStore1 = Some [1, 0] \<and>
   mset [1, 0] = mset [0..<totalUsers demoStore1] \<and>
   sorted_wrt (snapshotLe2 demoStore1) [1, 0] \<and>
   reachable demoStoreB \<and> distinct (usernameLower demoStoreB) \<and>
   RefreshSnapshot demoStoreB = Some (demoStoreB \<lparr> snapshot := [1, 0] \<rparr>) \<and>
   sorted_wrt (snapshotLe demoStoreB) [1, 0]"
proof -
  have r1: "reachable demoStore1" using demoStore1_inv by simp
  have rB: "reachable demoStoreB" using demoStoreB_inv by simp
  have d: "distinct (usernameLower demoStoreB)"
    by (simp add: demoStoreB_def string_cmp_demoB)
  show ?thesis
    using buildSnapshot_perm_sorted [OF r1] buildSnapshot_perm_sorted [OF rB]
      demoStore1_snapshot demoStoreB_snapshot r1 rB d
    by auto
qed

subsection \<open>sort.Search and the prefix range\<close>

lemma sort_Search_loop_stop: "\<not> i < j \<Longrightarrow> sort_Search_loop f i j = i"
  by (subst sort_Search_loop.simps) simp

lemma sort_Search_loop_left:
  "i < j \<Longrightarrow> f ((i + j) div 2) \<Longrightarrow>
   sort_Search_loop f i j = sort_Search_loop f i ((i + j) div 2)"
  by (subst sort_Search_loop.simps) (simp add: Let_def)

lemma sort_Search_loop_right:
  "i < j \<Longrightarrow> \<not> f ((i + j) div 2) \<Longrightarrow>
   sort_Search_loop f i j = sort_Search_loop f ((i + j) div 2 + 1) j"
  by (subst sort_Search_loop.simps) (simp add: Let_def)

lemma sort_Search_loop_correct:
  assumes mono: "\<And>x y. x \<le> y \<Longrightarrow> y < n \<Longrightarrow> f x \<Longrightarrow> f y"
  shows "i \<le> j \<Longrightarrow> j \<le> n \<Longrightarrow> (\<forall>x < i. \<not> f x) \<Longrightarrow> (\<forall>x. j \<le> x \<and> x < n \<longrightarrow> f x) \<Longrightarrow>
         search_post n f i j (sort_Search_loop f i j)"
proof (induction "j - i" arbitrary: i j rule: less_induct)
  case less
  show ?case
  proof (cases "i < j")
    case False
    then have ij: "i = j" using less.prems(1) by simp
    show ?thesis
      unfolding sort_Search_loop_stop [OF False] search_post_def
      using less.prems(3,4) ij by simp
  next
    case True
    define h where "h = (i + j) div 2"
    have h: "i \<le> h" "h < j" using True by (simp_all add: h_def)
    show ?thesis
    proof (cases "f h")
      case fh: True
      have up: "\<forall>x. h \<le> x \<and> x < n \<longrightarrow> f x"
      proof (intro allI impI)
        fix x assume "h \<le> x \<and> x < n"
        then show "f x" using mono [of h x] fh by simp
      qed
      have eq: "sort_Search_loop f i j = sort_Search_loop f i h"
        using sort_Search_loop_left [OF True] fh by (simp add: h_def)
      have hn: "h \<le> n" using h less.prems(2) by simp
      have m: "h - i < j - i" using h by simp
      have r: "search_post n f i h (sort_Search_loop f i h)"
        by (rule less.hyps [OF m h(1) hn less.prems(3) up])
      show ?thesis
        unfolding eq using r h(2) by (simp add: search_post_def)
    next
      case nfh: False
      have hn: "h < n" using h less.prems(2) by simp
      have lo: "\<forall>x < h + 1. \<not> f x"
      proof (intro allI impI)
        fix x assume "x < h + 1"
        then have "x \<le> h" by simp
        then show "\<not> f x" using mono [of x h] hn nfh by blast
      qed
      have eq: "sort_Search_loop f i j = sort_Search_loop f (h + 1) j"
        using sort_Search_loop_right [OF True] nfh by (simp add: h_def)
      have hj: "h + 1 \<le> j" using h by simp
      have m: "j - (h + 1) < j - i" using h by simp
      have r: "search_post n f (h + 1) j (sort_Search_loop f (h + 1) j)"
        by (rule less.hyps [OF m hj less.prems(2) lo less.prems(4)])
      show ?thesis
        unfolding eq using r h(1) by (simp add: search_post_def)
    qed
  qed
qed

lemma sort_Search_correct:
  assumes mono: "\<And>x y. x \<le> y \<Longrightarrow> y < n \<Longrightarrow> f x \<Longrightarrow> f y"
  shows "search_post n f 0 n (sort_Search n f)"
  unfolding sort_Search_def
proof (rule sort_Search_loop_correct)
  show "\<And>x y. x \<le> y \<Longrightarrow> y < n \<Longrightarrow> f x \<Longrightarrow> f y" by (rule mono)
  show "0 \<le> n" by simp
  show "n \<le> n" by simp
  show "\<forall>x < 0. \<not> f x" by simp
  show "\<forall>x. n \<le> x \<and> x < n \<longrightarrow> f x" by (intro allI impI) linarith
qed

lemma char_le_max: "(c :: char) \<le> CHR 0xFF"
proof -
  have "of_char c < (256 :: nat)" by (rule nat_of_char_less_256)
  then have "of_char c \<le> (255 :: nat)" by linarith
  moreover have "of_char (CHR 0xFF) = (255 :: nat)" by simp
  ultimately show ?thesis by (simp only: less_eq_char_def)
qed

lemma between_prefix:
  fixes p e :: string
  shows "(p \<le> e \<and> e < p @ [m]) \<longleftrightarrow> (prefix p e \<and> drop (length p) e < [m])"
proof (induction p arbitrary: e)
  case Nil
  show ?case by simp
next
  case (Cons a p)
  show ?case
  proof (cases e)
    case Nil
    then show ?thesis by simp
  next
    case (Cons b e')
    have "(a # p \<le> b # e' \<and> b # e' < (a # p) @ [m])
            \<longleftrightarrow> (a = b \<and> p \<le> e' \<and> e' < p @ [m])"
      by (cases "a = b") (auto simp: not_less_iff_gr_or_eq)
    also have "\<dots> \<longleftrightarrow> (a = b \<and> prefix p e' \<and> drop (length p) e' < [m])"
      using Cons.IH [of e'] by blast
    also have "\<dots> \<longleftrightarrow> (prefix (a # p) (b # e') \<and> drop (length (a # p)) (b # e') < [m])"
      by auto
    finally show ?thesis by (simp only: Cons)
  qed
qed

lemma prefix_iff_between:
  fixes p e :: string
  assumes "CHR 0xFF \<notin> set e"
  shows "prefix p e \<longleftrightarrow> (p \<le> e \<and> \<not> (p @ [CHR 0xFF] \<le> e))"
proof -
  have "drop (length p) e < [CHR 0xFF]"
  proof (cases "drop (length p) e")
    case Nil
    then show ?thesis by simp
  next
    case (Cons c r)
    have "set (drop (length p) e) \<subseteq> set e" by (rule set_drop_subset)
    then have "c \<in> set e" using Cons by auto
    then have "c \<noteq> CHR 0xFF" using assms by auto
    then have "c < CHR 0xFF" using char_le_max [of c] by simp
    then show ?thesis using Cons by simp
  qed
  then show ?thesis using between_prefix [of p e "CHR 0xFF"] by (auto simp: not_le)
qed

lemma le_append_self: "(p :: string) \<le> p @ q"
  by (induction p) simp_all

lemma filter_range:
  assumes "lo \<le> hi" and "hi \<le> length xs"
    and P: "\<And>i. i < length xs \<Longrightarrow> P (xs ! i) \<longleftrightarrow> lo \<le> i \<and> i < hi"
  shows "filter P xs = take (hi - lo) (drop lo xs)"
proof -
  have split: "xs = take lo xs @ take (hi - lo) (drop lo xs) @ drop hi xs"
  proof -
    have "drop lo xs = take (hi - lo) (drop lo xs) @ drop (hi - lo) (drop lo xs)"
      by (simp only: append_take_drop_id)
    moreover have "drop (hi - lo) (drop lo xs) = drop hi xs" using assms(1) by simp
    ultimately have "drop lo xs = take (hi - lo) (drop lo xs) @ drop hi xs" by simp
    then show ?thesis by (metis append_take_drop_id)
  qed
  have a: "filter P (take lo xs) = []"
  proof -
    have "\<forall>x \<in> set (take lo xs). \<not> P x"
    proof
      fix x assume "x \<in> set (take lo xs)"
      then obtain i where i: "i < length (take lo xs)" "x = take lo xs ! i"
        by (auto simp: in_set_conv_nth)
      then have "i < lo" "i < length xs" "x = xs ! i" by simp_all
      then show "\<not> P x" using P [of i] by simp
    qed
    then show ?thesis by (simp add: filter_empty_conv)
  qed
  have c: "filter P (drop hi xs) = []"
  proof -
    have "\<forall>x \<in> set (drop hi xs). \<not> P x"
    proof
      fix x assume "x \<in> set (drop hi xs)"
      then obtain i where i: "i < length (drop hi xs)" "x = drop hi xs ! i"
        by (auto simp: in_set_conv_nth)
      then have "hi + i < length xs" "x = xs ! (hi + i)" using assms(2) by simp_all
      then show "\<not> P x" using P [of "hi + i"] by simp
    qed
    then show ?thesis by (simp add: filter_empty_conv)
  qed
  have b: "filter P (take (hi - lo) (drop lo xs)) = take (hi - lo) (drop lo xs)"
  proof -
    have "\<forall>x \<in> set (take (hi - lo) (drop lo xs)). P x"
    proof
      fix x assume "x \<in> set (take (hi - lo) (drop lo xs))"
      then obtain i where i: "i < length (take (hi - lo) (drop lo xs))"
        "x = take (hi - lo) (drop lo xs) ! i"
        by (auto simp: in_set_conv_nth)
      then have "i < hi - lo" "lo + i < length xs" "x = xs ! (lo + i)"
        using assms(1,2) by simp_all
      then show "P x" using P [of "lo + i"] by simp
    qed
    then show ?thesis by simp
  qed
  have "filter P xs = filter P (take lo xs) @ filter P (take (hi - lo) (drop lo xs))
                        @ filter P (drop hi xs)"
    by (subst split) (simp only: filter_append)
  then show ?thesis by (simp only: a b c append_Nil append_Nil2)
qed

lemma index_keys_mono:
  assumes "sorted_wrt indexLe idx" and "x \<le> y" and "y < length idx"
  shows "UsernameLower (idx ! x) \<le> UsernameLower (idx ! y)"
proof (cases "x = y")
  case True
  then show ?thesis by simp
next
  case False
  then have "x < y" using assms(2) by simp
  then have "indexLe (idx ! x) (idx ! y)"
    using assms(1,3) by (simp add: sorted_wrt_iff_nth_less)
  then show ?thesis by (auto simp: indexLe_def)
qed

lemma prefixRange_bounds:
  assumes srt: "sorted_wrt indexLe (usernameIndex s)"
    and noff: "\<forall>e \<in> set (usernameIndex s). CHR 0xFF \<notin> set (UsernameLower e)"
    and pr: "prefixRange s p = (lo, hi)"
  shows "lo \<le> hi" and "hi \<le> length (usernameIndex s)"
    and "\<And>i. i < length (usernameIndex s) \<Longrightarrow>
           prefix p (UsernameLower (usernameIndex s ! i)) \<longleftrightarrow> lo \<le> i \<and> i < hi"
proof -
  let ?idx = "usernameIndex s"
  let ?n = "length ?idx"
  let ?key = "\<lambda>i. UsernameLower (?idx ! i)"
  let ?f1 = "\<lambda>i. ?key i \<ge> p"
  let ?f2 = "\<lambda>i. ?key i \<ge> p @ [CHR 0xFF]"
  have lo: "lo = sort_Search ?n ?f1" and hi: "hi = sort_Search ?n ?f2"
    using pr by (simp_all add: prefixRange_def Let_def)
  have m1: "\<And>x y. x \<le> y \<Longrightarrow> y < ?n \<Longrightarrow> ?f1 x \<Longrightarrow> ?f1 y"
    using index_keys_mono [OF srt] by (meson order_trans)
  have m2: "\<And>x y. x \<le> y \<Longrightarrow> y < ?n \<Longrightarrow> ?f2 x \<Longrightarrow> ?f2 y"
    using index_keys_mono [OF srt] by (meson order_trans)
  have p1: "search_post ?n ?f1 0 ?n lo"
    unfolding lo by (rule sort_Search_correct [OF m1])
  have p2: "search_post ?n ?f2 0 ?n hi"
    unfolding hi by (rule sort_Search_correct [OF m2])
  have lo_n: "lo \<le> ?n" and lo_lt: "\<And>x. x < lo \<Longrightarrow> \<not> ?f1 x"
    and lo_ge: "\<And>x. lo \<le> x \<Longrightarrow> x < ?n \<Longrightarrow> ?f1 x"
    using p1 unfolding search_post_def by blast+
  have hi_n: "hi \<le> ?n" and hi_lt: "\<And>x. x < hi \<Longrightarrow> \<not> ?f2 x"
    and hi_ge: "\<And>x. hi \<le> x \<Longrightarrow> x < ?n \<Longrightarrow> ?f2 x"
    using p2 unfolding search_post_def by blast+
  show "hi \<le> ?n" by (rule hi_n)
  show "lo \<le> hi"
  proof (rule ccontr)
    assume "\<not> lo \<le> hi"
    then have lt: "hi < lo" by simp
    then have "hi < ?n" using lo_n by simp
    then have "?f2 hi" using hi_ge [of hi] by simp
    then have "?f1 hi" using le_append_self [of p "[CHR 0xFF]"] by (meson order_trans)
    then show False using lo_lt [OF lt] by simp
  qed
  show "prefix p (?key i) \<longleftrightarrow> lo \<le> i \<and> i < hi" if i: "i < ?n" for i
  proof -
    have "?idx ! i \<in> set ?idx" using i by simp
    then have nf: "CHR 0xFF \<notin> set (?key i)" using noff by blast
    have a: "?f1 i \<longleftrightarrow> lo \<le> i"
      using lo_lt [of i] lo_ge [of i] i by (cases "lo \<le> i") simp_all
    have b: "\<not> ?f2 i \<longleftrightarrow> i < hi"
      using hi_lt [of i] hi_ge [of i] i by (cases "i < hi") simp_all
    show ?thesis
      unfolding prefix_iff_between [OF nf] using a b by blast
  qed
qed

lemma length_filter_mset_eq:
  assumes "mset xs = mset ys"
  shows "length (filter P xs) = length (filter P ys)"
proof -
  have "mset (filter P xs) = mset (filter P ys)"
    using assms by (simp only: mset_filter)
  then show ?thesis by (rule mset_eq_length)
qed

lemma index_count:
  assumes idx: "index_inv s"
  shows "length (filter (\<lambda>e. prefix p (UsernameLower e)) (usernameIndex s))
           = card {uid. uid < totalUsers s \<and> prefix p (usernameLower s ! uid)}"
proof -
  let ?P = "\<lambda>e. prefix p (UsernameLower e)"
  let ?mk = "\<lambda>uid. \<lparr> UsernameLower = usernameLower s ! uid, UsernameIndex.ID = uid \<rparr>"
  have m: "mset (usernameIndex s) = mset (map ?mk [0..<totalUsers s])"
    using idx by (simp add: index_inv_def)
  have "length (filter ?P (usernameIndex s)) = length (filter ?P (map ?mk [0..<totalUsers s]))"
    by (rule length_filter_mset_eq [OF m])
  also have "\<dots> = length (filter (\<lambda>uid. prefix p (usernameLower s ! uid)) [0..<totalUsers s])"
    by (simp add: filter_map comp_def)
  also have "\<dots> = card {uid. uid < totalUsers s \<and> prefix p (usernameLower s ! uid)}"
    by (simp add: length_filter_conv_card cong: conj_cong)
  finally show ?thesis .
qed

lemma index_entries_lower:
  assumes idx: "index_inv s" and len: "length (usernameLower s) = totalUsers s"
    and e: "e \<in> set (usernameIndex s)"
  shows "UsernameLower e \<in> set (usernameLower s)"
proof -
  let ?mk = "\<lambda>uid. \<lparr> UsernameLower = usernameLower s ! uid, UsernameIndex.ID = uid \<rparr>"
  have m: "mset (usernameIndex s) = mset (map ?mk [0..<totalUsers s])"
    using idx by (simp add: index_inv_def)
  have "set (usernameIndex s) = set (map ?mk [0..<totalUsers s])"
    by (rule mset_eq_setD [OF m])
  then obtain uid where "uid < totalUsers s" "e = ?mk uid" using e by auto
  then show ?thesis using len by simp
qed

text \<open>
  C3: in every reachable store whose lowercase names contain no byte \<open>0xFF\<close> (Go's
  \<open>strings.ToLower\<close> returns ASCII or valid UTF-8, which never contains that byte), for
  every prefix \<open>p\<close> the two binary searches of \<open>SearchPage\<close> return \<open>lo \<le> hi\<close> such that
  the index positions in \<open>[lo, hi)\<close> are exactly those whose \<open>usernameLower\<close> starts with
  \<open>p\<close>; the entries there are all the matching entries of the index, in ascending
  (\<open>usernameLower\<close>, id) order, and \<open>hi - lo\<close> is the number of matching users.
\<close>

theorem C3_prefix_range_exact:
  assumes "reachable s"
    and "\<forall>l \<in> set (usernameLower s). CHR 0xFF \<notin> set l"
    and "prefixRange s p = (lo, hi)"
  shows "lo \<le> hi \<and> hi \<le> length (usernameIndex s) \<and>
         (\<forall>i < length (usernameIndex s).
            (lo \<le> i \<and> i < hi) \<longleftrightarrow> prefix p (UsernameLower (usernameIndex s ! i))) \<and>
         take (hi - lo) (drop lo (usernameIndex s))
           = filter (\<lambda>e. prefix p (UsernameLower e)) (usernameIndex s) \<and>
         sorted_wrt indexLe (take (hi - lo) (drop lo (usernameIndex s))) \<and>
         hi - lo = card {uid. uid < totalUsers s \<and> prefix p (usernameLower s ! uid)}"
proof -
  let ?idx = "usernameIndex s"
  let ?P = "\<lambda>e. prefix p (UsernameLower e)"
  have inv: "store_inv s" and idx: "index_inv s"
    using reachable_inv [OF assms(1)] by simp_all
  have len: "length (usernameLower s) = totalUsers s" using inv by (simp add: store_inv_def)
  have srt: "sorted_wrt indexLe ?idx" using idx by (simp add: index_inv_def)
  have noff: "\<forall>e \<in> set ?idx. CHR 0xFF \<notin> set (UsernameLower e)"
    using index_entries_lower [OF idx len] assms(2) by blast
  note b = prefixRange_bounds [OF srt noff assms(3)]
  have flt: "filter ?P ?idx = take (hi - lo) (drop lo ?idx)"
    by (rule filter_range [OF b(1,2)]) (use b(3) in simp)
  have ssub: "sorted_wrt indexLe (take (hi - lo) (drop lo ?idx))"
    using srt by (simp add: sorted_wrt_take sorted_wrt_drop)
  have "length (take (hi - lo) (drop lo ?idx)) = hi - lo" using b(1,2) by simp
  then have cnt: "hi - lo = card {uid. uid < totalUsers s \<and> prefix p (usernameLower s ! uid)}"
    using index_count [OF idx, of p] flt by simp
  have iff: "\<forall>i < length ?idx. (lo \<le> i \<and> i < hi) \<longleftrightarrow> prefix p (UsernameLower (?idx ! i))"
    using b(3) by blast
  show ?thesis using b(1,2) iff flt ssub cnt by simp
qed

lemma demoStoreB_index:
  "usernameIndex demoStoreB
     = [\<lparr> UsernameLower = ''al'', UsernameIndex.ID = 1 \<rparr>, \<lparr> UsernameLower = ''bob'', UsernameIndex.ID = 0 \<rparr>]"
  by (simp add: demoStoreB_def)

lemma demoStoreB_lo:
  "sort_Search (length (usernameIndex demoStoreB))
     (\<lambda>i. ''a'' \<le> UsernameLower (usernameIndex demoStoreB ! i)) = 0"
  unfolding demoStoreB_index by code_simp

lemma demoStoreB_hi:
  "sort_Search (length (usernameIndex demoStoreB))
     (\<lambda>i. ''a'' @ [CHR 0xFF] \<le> UsernameLower (usernameIndex demoStoreB ! i)) = 1"
  unfolding demoStoreB_index by code_simp

lemma demoStoreB_range: "prefixRange demoStoreB ''a'' = (0, 1)"
  by (simp only: prefixRange_def Let_def demoStoreB_lo demoStoreB_hi)

theorem C3_prefix_range_exact_witness:
  "reachable demoStoreB \<and> prefixRange demoStoreB ''a'' = (0, 1) \<and>
   take 1 (usernameIndex demoStoreB) = [\<lparr> UsernameLower = ''al'', UsernameIndex.ID = 1 \<rparr>] \<and>
   filter (\<lambda>e. prefix ''a'' (UsernameLower e)) (usernameIndex demoStoreB)
     = take 1 (usernameIndex demoStoreB) \<and>
   card {uid. uid < totalUsers demoStoreB \<and> prefix ''a'' (usernameLower demoStoreB ! uid)} = 1"
proof -
  have r: "reachable demoStoreB" using demoStoreB_inv by simp
  have nf: "\<forall>l \<in> set (usernameLower demoStoreB). CHR 0xFF \<notin> set l"
    by (simp add: demoStoreB_def)
  have t: "take 1 (usernameIndex demoStoreB) = [\<lparr> UsernameLower = ''al'', UsernameIndex.ID = 1 \<rparr>]"
    by (simp add: demoStoreB_def)
  note th = C3_prefix_range_exact [OF r nf demoStoreB_range]
  note th4 = th [THEN conjunct2, THEN conjunct2, THEN conjunct2, THEN conjunct1]
  note th6 = th [THEN conjunct2, THEN conjunct2, THEN conjunct2, THEN conjunct2, THEN conjunct2]
  have f: "filter (\<lambda>e. prefix ''a'' (UsernameLower e)) (usernameIndex demoStoreB)
     = take 1 (usernameIndex demoStoreB)"
    using th4 by simp
  have c: "card {uid. uid < totalUsers demoStoreB \<and>
      prefix ''a'' (usernameLower demoStoreB ! uid)} = 1"
    using th6 by simp
  show ?thesis
    using r demoStoreB_range t f c by (simp only: simp_thms)
qed

subsection \<open>SearchPage and the /search handler: no panic, bounded result\<close>

lemma entryOf_live:
  assumes inv: "store_inv s" and uid: "uid < totalUsers s"
  shows "entryOf s uid = Some (liveEntry s uid)"
proof -
  have lens: "length (users s) = totalUsers s" "length (ratings s) = totalUsers s"
    "length (ratingCounts s) = ratingRange"
    using inv by (simp_all add: store_inv_def counts_ok_def)
  show ?thesis
    using uid lens by (simp add: entryOf_def at_def rank_eq [OF lens(3)] liveEntry_def)
qed

lemma collectEntries_live:
  assumes inv: "store_inv s"
  shows "\<forall>uid \<in> set ids. uid < totalUsers s \<Longrightarrow>
         collectEntries s ids acc = Some (acc @ map (liveEntry s) ids)"
proof (induction ids arbitrary: acc)
  case Nil
  show ?case by simp
next
  case (Cons uid ids)
  have "entryOf s uid = Some (liveEntry s uid)"
    using entryOf_live [OF inv] Cons.prems by simp
  then show ?case using Cons.IH [of "acc @ [liveEntry s uid]"] Cons.prems by simp
qed

lemma collectIndexed_live:
  assumes inv: "store_inv s"
  shows "\<forall>i \<in> set is. i < length (usernameIndex s) \<and>
            UsernameIndex.ID (usernameIndex s ! i) < totalUsers s \<Longrightarrow>
         collectIndexed s is acc
           = Some (acc @ map (\<lambda>i. liveEntry s (UsernameIndex.ID (usernameIndex s ! i))) is)"
proof (induction "is" arbitrary: acc)
  case Nil
  show ?case by simp
next
  case (Cons i "is")
  have i: "i < length (usernameIndex s)" "UsernameIndex.ID (usernameIndex s ! i) < totalUsers s"
    using Cons.prems by simp_all
  have "entryOf s (UsernameIndex.ID (usernameIndex s ! i))
          = Some (liveEntry s (UsernameIndex.ID (usernameIndex s ! i)))"
    by (rule entryOf_live [OF inv i(2)])
  then show ?case
    using Cons.IH [of "acc @ [liveEntry s (UsernameIndex.ID (usernameIndex s ! i))]"] Cons.prems i(1)
    by (simp add: at_def)
qed

lemma index_entries_id:
  assumes idx: "index_inv s" and e: "e \<in> set (usernameIndex s)"
  shows "UsernameIndex.ID e < totalUsers s"
proof -
  let ?mk = "\<lambda>uid. \<lparr> UsernameLower = usernameLower s ! uid, UsernameIndex.ID = uid \<rparr>"
  have m: "mset (usernameIndex s) = mset (map ?mk [0..<totalUsers s])"
    using idx by (simp add: index_inv_def)
  have "set (usernameIndex s) = set (map ?mk [0..<totalUsers s])"
    by (rule mset_eq_setD [OF m])
  then obtain uid where "uid < totalUsers s" "e = ?mk uid" using e by auto
  then show ?thesis by simp
qed

lemma prefixRange_hi_le:
  assumes srt: "sorted_wrt indexLe (usernameIndex s)" and pr: "prefixRange s p = (lo, hi)"
  shows "hi \<le> length (usernameIndex s)"
proof -
  let ?n = "length (usernameIndex s)"
  let ?f2 = "\<lambda>i. UsernameLower (usernameIndex s ! i) \<ge> p @ [CHR 0xFF]"
  have hi: "hi = sort_Search ?n ?f2"
    using pr by (simp add: prefixRange_def Let_def)
  have m2: "\<And>x y. x \<le> y \<Longrightarrow> y < ?n \<Longrightarrow> ?f2 x \<Longrightarrow> ?f2 y"
    using index_keys_mono [OF srt] by (meson order_trans)
  have "search_post ?n ?f2 0 ?n hi"
    unfolding hi by (rule sort_Search_correct [OF m2])
  then show ?thesis unfolding search_post_def by blast
qed

lemma SearchPage_bounded:
  assumes inv: "store_inv s" and idx: "index_inv s"
  shows "\<exists>results totl pg tp. SearchPage s q page limit = Some (results, totl, pg, tp) \<and>
           int (length results) \<le> (if limit \<le> 0 then 20 else limit)"
proof -
  define limit1 where "limit1 = (if limit \<le> 0 then 20 else limit)"
  define page1 where "page1 = (if page \<le> 0 then 1 else page)"
  define pfx1 where "pfx1 = strings_ToLower (strings_TrimSpace q)"
  have l1: "1 \<le> limit1" by (simp add: limit1_def)
  show ?thesis
  proof (cases "pfx1 = []")
    case True
    then have "SearchPage s q page limit = Some ([], 0, page1, 0)"
      by (simp add: SearchPage_def Let_def pfx1_def page1_def)
    then show ?thesis by simp
  next
    case False
    obtain lo hi where pr: "prefixRange s pfx1 = (lo, hi)" by (cases "prefixRange s pfx1")
    have srt: "sorted_wrt indexLe (usernameIndex s)" using idx by (simp add: index_inv_def)
    have hi: "hi \<le> length (usernameIndex s)" by (rule prefixRange_hi_le [OF srt pr])
    define totl where "totl = int hi - int lo"
    define tp where "tp = calcTotalPages totl limit1"
    define page2 where "page2 = clampPage page1 tp"
    define startIdx where "startIdx = int lo + (page2 - 1) * limit1"
    define endIdx where
      "endIdx = (if startIdx + limit1 > int hi then int hi else startIdx + limit1)"
    have p2: "1 \<le> page2" by (simp add: page2_def clampPage_def Let_def)
    have st0: "0 \<le> startIdx" using p2 l1 by (simp add: startIdx_def)
    have unf: "SearchPage s q page limit =
        (if totl = 0 then Some ([], 0, page2, tp)
         else if startIdx \<ge> int hi then Some ([], totl, page2, tp)
         else (case collectIndexed s [nat startIdx..<nat endIdx] [] of
                 None \<Rightarrow> None
               | Some results \<Rightarrow> Some (results, totl, page2, tp)))"
      using False pr
      unfolding totl_def tp_def page2_def startIdx_def endIdx_def limit1_def page1_def pfx1_def
      by (simp add: SearchPage_def Let_def)
    show ?thesis
    proof (cases "totl = 0 \<or> startIdx \<ge> int hi")
      case True
      then show ?thesis using unf l1 by (auto simp: limit1_def)
    next
      case False
      have e_hi: "endIdx \<le> int hi" "endIdx \<le> startIdx + limit1"
        by (simp_all add: endIdx_def)
      have rng: "\<forall>i \<in> set [nat startIdx..<nat endIdx]. i < length (usernameIndex s) \<and>
            UsernameIndex.ID (usernameIndex s ! i) < totalUsers s"
      proof
        fix i assume "i \<in> set [nat startIdx..<nat endIdx]"
        then have "i < nat endIdx" by simp
        then have i: "i < length (usernameIndex s)" using e_hi(1) hi by linarith
        then have "usernameIndex s ! i \<in> set (usernameIndex s)" by simp
        then show "i < length (usernameIndex s) \<and>
            UsernameIndex.ID (usernameIndex s ! i) < totalUsers s"
          using i index_entries_id [OF idx] by blast
      qed
      have c: "collectIndexed s [nat startIdx..<nat endIdx] []
                 = Some (map (\<lambda>i. liveEntry s (UsernameIndex.ID (usernameIndex s ! i)))
                           [nat startIdx..<nat endIdx])"
        using collectIndexed_live [OF inv rng, of "[]"] by simp
      have "int (nat endIdx - nat startIdx) \<le> limit1"
        using e_hi(2) st0 l1 by linarith
      then show ?thesis using unf False c by (simp add: limit1_def)
    qed
  qed
qed

text \<open>
  C6: the search operation served at \<open>/search\<close> clamps its limit into [1, 200], taking 20
  for a non-positive limit: \<open>SearchPage\<close> replaces a non-positive limit by 20 and the
  handler caps the limit at 200 before calling it. For every query, page and limit the
  handler returns a response whose page size is that clamped limit and whose result list
  has at most that many entries, hence never more than 200.
\<close>

theorem C6_search_limit_clamped:
  assumes "reachable s"
  shows "\<exists>resp. searchHandler s queryParam qParam page limit = Some resp \<and>
           SearchResponse.PageSize resp
             = (if limit \<le> 0 then 20 else if limit > 200 then 200 else limit) \<and>
           1 \<le> SearchResponse.PageSize resp \<and> SearchResponse.PageSize resp \<le> 200 \<and>
           int (length (Results resp)) \<le> SearchResponse.PageSize resp \<and>
           length (Results resp) \<le> 200 \<and>
           Count resp = int (length (Results resp))"
proof -
  define query where "query = (if queryParam = [] then qParam else queryParam)"
  define limit1 where "limit1 = (if limit \<le> 0 then 20 else limit)"
  define limit2 where "limit2 = (if limit1 > 200 then 200 else limit1)"
  have inv: "store_inv s" and idx: "index_inv s"
    using reachable_inv [OF assms] by simp_all
  have l2: "1 \<le> limit2" "limit2 \<le> 200"
    "limit2 = (if limit \<le> 0 then 20 else if limit > 200 then 200 else limit)"
    by (simp_all add: limit2_def limit1_def)
  from SearchPage_bounded [OF inv idx, of query page limit2]
  obtain results totl pg tp where
    sp: "SearchPage s query page limit2 = Some (results, totl, pg, tp)" and
    len: "int (length results) \<le> (if limit2 \<le> 0 then 20 else limit2)"
    by blast
  have len2: "int (length results) \<le> limit2" using len l2(1) by simp
  have len3: "length results \<le> 200" using len2 l2(2) by linarith
  have "searchHandler s queryParam qParam page limit =
          Some \<lparr> Query = query, Count = int (length results), Total = totl,
                 SearchResponse.Page = pg, SearchResponse.PageSize = limit2,
                 SearchResponse.TotalPages = tp, Results = results \<rparr>"
    unfolding searchHandler_def Let_def query_def [symmetric] limit1_def [symmetric]
      limit2_def [symmetric] sp
    by simp
  then show ?thesis using l2 len2 len3 by simp
qed

theorem C6_search_limit_clamped_witness:
  "\<exists>resp. searchHandler demoStoreB ''a'' [] 1 1000 = Some resp \<and>
     SearchResponse.PageSize resp = 200 \<and> length (Results resp) \<le> 200"
proof -
  have r: "reachable demoStoreB" using demoStoreB_inv by simp
  from C6_search_limit_clamped [OF r, of "''a''" "[]" 1 1000]
  show ?thesis by auto
qed

subsection \<open>LeaderboardPage: the pages of a published snapshot\<close>

lemma take_drop_clip:
  "length xs \<le> a + l \<Longrightarrow> take (length xs - a) (drop a xs) = take l (drop a xs)"
  by simp

lemma LeaderboardPage_eq:
  assumes inv: "store_inv s" and ids: "\<forall>uid \<in> set (snapshot s). uid < totalUsers s"
    and k: "1 \<le> k" and L: "1 \<le> L"
  shows "LeaderboardPage s (int k) L
           = Some (map (liveEntry s) (take (nat L) (drop ((k - 1) * nat L) (snapshot s))))"
proof -
  let ?snap = "snapshot s"
  define offset where "offset = (int k - 1) * L"
  have off: "0 \<le> offset" "nat offset = (k - 1) * nat L"
    using k L by (simp_all add: offset_def nat_mult_distrib of_nat_diff)
  show ?thesis
  proof (cases "?snap = [] \<or> offset \<ge> int (length ?snap)")
    case True
    then have "drop (nat offset) ?snap = []" using off(1) by auto
    then have r: "take (nat L) (drop ((k - 1) * nat L) ?snap) = []" using off(2) by simp
    have "LeaderboardPage s (int k) L = Some []"
      using True k L unfolding offset_def
      by (auto simp: LeaderboardPage_def SnapshotIDs_def Let_def)
    then show ?thesis using r by simp
  next
    case False
    then have ne: "?snap \<noteq> []" and lt: "offset < int (length ?snap)" by auto
    define end1 where
      "end1 = (if offset + L > int (length ?snap) then int (length ?snap) else offset + L)"
    have unf: "LeaderboardPage s (int k) L
                 = collectEntries s (take (nat end1 - nat offset) (drop (nat offset) ?snap)) []"
      using ne lt k L unfolding end1_def offset_def
      by (simp add: LeaderboardPage_def SnapshotIDs_def Let_def)
    have sl: "take (nat end1 - nat offset) (drop (nat offset) ?snap)
                = take (nat L) (drop (nat offset) ?snap)"
    proof (cases "offset + L > int (length ?snap)")
      case True
      then have e: "nat end1 = length ?snap" by (simp add: end1_def)
      have "length ?snap \<le> nat offset + nat L" using True off(1) L by linarith
      then show ?thesis unfolding e by (rule take_drop_clip)
    next
      case False
      then have "nat end1 - nat offset = nat L" using off(1) L by (simp add: end1_def)
      then show ?thesis by simp
    qed
    have sub: "\<forall>uid \<in> set (take (nat L) (drop (nat offset) ?snap)). uid < totalUsers s"
      using ids by (meson in_set_dropD in_set_takeD)
    show ?thesis
      unfolding unf sl using collectEntries_live [OF inv sub, of "[]"] off(2) by simp
  qed
qed

lemma those_map_Some: "those (map (\<lambda>k. Some (g k)) ks) = Some (map g ks)"
  by (induction ks) simp_all

lemma concat_pages:
  "concat (map (\<lambda>k. take l (drop (k * l) xs)) [0..<T]) = take (T * l) xs"
proof (induction T)
  case 0
  show ?case by simp
next
  case (Suc T)
  have e: "Suc T * l = T * l + l" by simp
  have "take (Suc T * l) xs = take (T * l) xs @ take l (drop (T * l) xs)"
    unfolding e by (rule take_add)
  then show ?case using Suc by simp
qed

lemma pages_cover:
  assumes "1 \<le> L"
  shows "N \<le> nat (calcTotalPages (int N) L) * nat L"
proof (cases "N = 0")
  case True
  then show ?thesis by simp
next
  case False
  define T where "T = (int N + L - 1) div L"
  have c: "calcTotalPages (int N) L = T"
    using False assms by (simp add: calcTotalPages_def T_def)
  have "int N + L - 1 = T * L + (int N + L - 1) mod L" by (simp add: T_def)
  moreover have "(int N + L - 1) mod L < L" using assms by simp
  ultimately have ge: "int N \<le> T * L" by linarith
  have "0 \<le> T" using assms by (simp add: T_def pos_imp_zdiv_nonneg_iff)
  then have "int (nat T * nat L) = T * L" using assms by simp
  then have "int N \<le> int (nat T * nat L)" using ge by simp
  then have "N \<le> nat T * nat L" by (simp only: of_nat_le_iff)
  then show ?thesis unfolding c .
qed

lemma RefreshSnapshot_published:
  assumes r: "reachable s0" and rs: "RefreshSnapshot s0 = Some s"
  shows "store_inv s" and "totalUsers s = totalUsers s0"
    and "mset (snapshot s) = mset [0..<totalUsers s]"
proof -
  from buildSnapshot_perm_sorted [OF r] obtain snap where
    sn: "RefreshSnapshot s0 = Some (s0 \<lparr> snapshot := snap \<rparr>)"
    "mset snap = mset [0..<totalUsers s0]"
    by blast
  then have s: "s = s0 \<lparr> snapshot := snap \<rparr>" using rs by simp
  have inv0: "store_inv s0" using reachable_inv [OF r] by simp
  show "store_inv s" using inv0 unfolding s by (simp add: store_inv_snapshot)
  show "totalUsers s = totalUsers s0" unfolding s by simp
  show "mset (snapshot s) = mset [0..<totalUsers s]" unfolding s using sn(2) by simp
qed

text \<open>
  C7: after a snapshot has been published (\<open>RefreshSnapshot\<close> in a reachable store) and
  with the store then left as it is, reading the leaderboard pages 1, 2, ..., \<open>total_pages\<close>
  with a fixed limit \<open>L \<ge> 1\<close> never panics; page \<open>i + 1\<close> holds the entries of the
  snapshot ids at positions \<open>[i * L, i * L + L)\<close>, and the pages concatenated are exactly
  the entries (live rank, name, live rating) of the snapshot ids, in snapshot order: the
  whole population, each user once.
\<close>

theorem C7_pages_concat_to_snapshot:
  assumes "reachable s0" and "RefreshSnapshot s0 = Some s" and "1 \<le> L"
  shows "\<exists>pages.
           map (\<lambda>k. LeaderboardPage s (int k) L) [1..<Suc (nat (calcTotalPages (UserCount s) L))]
             = map Some pages \<and>
           (\<forall>i < length pages.
              pages ! i = map (liveEntry s) (take (nat L) (drop (i * nat L) (SnapshotIDs s)))) \<and>
           concat pages = map (liveEntry s) (SnapshotIDs s) \<and>
           collectEntries s (SnapshotIDs s) [] = Some (concat pages) \<and>
           map LeaderboardEntry.Username (concat pages)
             = map (\<lambda>uid. User.Username (users s ! uid)) (SnapshotIDs s) \<and>
           map LeaderboardEntry.Rating (concat pages)
             = map (\<lambda>uid. ratings s ! uid) (SnapshotIDs s) \<and>
           mset (SnapshotIDs s) = mset [0..<totalUsers s]"
proof -
  let ?snap = "snapshot s"
  let ?l = "nat L"
  define T where "T = nat (calcTotalPages (UserCount s) L)"
  let ?slice = "\<lambda>i. take ?l (drop (i * ?l) ?snap)"
  define pages where "pages = map (\<lambda>i. map (liveEntry s) (?slice i)) [0..<T]"
  note pub = RefreshSnapshot_published [OF assms(1,2)]
  have perm: "mset ?snap = mset [0..<totalUsers s]" by (rule pub(3))
  have ids: "\<forall>uid \<in> set ?snap. uid < totalUsers s"
  proof
    fix uid assume "uid \<in> set ?snap"
    then have "uid \<in> set [0..<totalUsers s]" using mset_eq_setD [OF perm] by simp
    then show "uid < totalUsers s" by simp
  qed
  have len: "length ?snap = totalUsers s"
    using mset_eq_length [OF perm] by simp
  have pg: "\<And>i. LeaderboardPage s (int (Suc i)) L = Some (map (liveEntry s) (?slice i))"
  proof -
    fix i
    have "1 \<le> Suc i" by simp
    from LeaderboardPage_eq [OF pub(1) ids this assms(3)]
    show "LeaderboardPage s (int (Suc i)) L = Some (map (liveEntry s) (?slice i))" by simp
  qed
  have idx: "[1..<Suc T] = map Suc [0..<T]"
    by (simp only: map_Suc_upt One_nat_def)
  have "map (\<lambda>k. LeaderboardPage s (int k) L) (map Suc [0..<T])
          = map (\<lambda>i. LeaderboardPage s (int (Suc i)) L) [0..<T]"
    by (simp only: map_map comp_def)
  also have "\<dots> = map (\<lambda>i. Some (map (liveEntry s) (?slice i))) [0..<T]"
    by (simp only: pg)
  also have "\<dots> = map Some pages"
    unfolding pages_def by (simp only: map_map comp_def)
  finally have a: "map (\<lambda>k. LeaderboardPage s (int k) L) [1..<Suc T] = map Some pages"
    unfolding idx .
  have b: "\<forall>i < length pages. pages ! i = map (liveEntry s) (?slice i)"
    unfolding pages_def by simp
  have cover: "length ?snap \<le> T * ?l"
    using pages_cover [OF assms(3), of "totalUsers s"] len by (simp add: T_def UserCount_def)
  have "concat pages = map (liveEntry s) (concat (map ?slice [0..<T]))"
    unfolding pages_def by (simp add: map_concat comp_def)
  also have "concat (map ?slice [0..<T]) = take (T * ?l) ?snap"
    by (rule concat_pages)
  also have "take (T * ?l) ?snap = ?snap" using cover by simp
  finally have c: "concat pages = map (liveEntry s) ?snap" .
  have d: "collectEntries s ?snap [] = Some (concat pages)"
    using collectEntries_live [OF pub(1) ids, of "[]"] c by simp
  have e: "map LeaderboardEntry.Username (concat pages)
             = map (\<lambda>uid. User.Username (users s ! uid)) ?snap"
    unfolding c by (simp add: liveEntry_def)
  have f: "map LeaderboardEntry.Rating (concat pages) = map (\<lambda>uid. ratings s ! uid) ?snap"
    unfolding c by (simp add: liveEntry_def)
  show ?thesis
    unfolding SnapshotIDs_def T_def [symmetric]
    using a b c d e f perm by blast
qed

lemma demoStore2_published: "RefreshSnapshot demoStore1 = Some demoStore2"
  by (simp add: RefreshSnapshot_def demoStore1_snapshot demoStore2_def)

theorem C7_pages_concat_to_snapshot_witness:
  "RefreshSnapshot demoStore1 = Some demoStore2 \<and> SnapshotIDs demoStore2 = [1, 0] \<and>
   LeaderboardPage demoStore2 1 1 = Some [liveEntry demoStore2 1] \<and>
   LeaderboardPage demoStore2 2 1 = Some [liveEntry demoStore2 0] \<and>
   map LeaderboardEntry.Username [liveEntry demoStore2 1, liveEntry demoStore2 0] = [''a'', ''A'']"
proof -
  have r: "reachable demoStore1" using demoStore1_inv by simp
  have sn: "SnapshotIDs demoStore2 = [1, 0]"
    by (simp add: SnapshotIDs_def demoStore2_def)
  have T: "nat (calcTotalPages (UserCount demoStore2) 1) = 2"
    by (simp add: calcTotalPages_def UserCount_def demoStore2_def demoStore1_def)
  have ks: "[1..<Suc 2] = [1, 2]" by (simp add: upt_rec)
  from C7_pages_concat_to_snapshot [OF r demoStore2_published, of 1]
  obtain pages where
    a: "map (\<lambda>k. LeaderboardPage demoStore2 (int k) 1) [1..<Suc 2] = map Some pages" and
    b: "\<forall>i < length pages. pages ! i
          = map (liveEntry demoStore2) (take (nat 1) (drop (i * nat 1) [1, 0]))"
    unfolding T sn by auto
  have a': "[LeaderboardPage demoStore2 1 1, LeaderboardPage demoStore2 2 1] = map Some pages"
    using a unfolding ks by simp
  then have len: "length pages = 2" by (metis length_map length_Cons list.size(3) numeral_2_eq_2)
  have p0: "pages ! 0 = [liveEntry demoStore2 1]" using b len by simp
  have p1: "pages ! 1 = [liveEntry demoStore2 0]" using b len by simp
  have "LeaderboardPage demoStore2 1 1 = Some (pages ! 0)"
    "LeaderboardPage demoStore2 2 1 = Some (pages ! 1)"
    using a' len by (cases pages; cases "tl pages"; auto)+
  then have pg: "LeaderboardPage demoStore2 1 1 = Some [liveEntry demoStore2 1]"
    "LeaderboardPage demoStore2 2 1 = Some [liveEntry demoStore2 0]"
    using p0 p1 by simp_all
  have nm: "map LeaderboardEntry.Username [liveEntry demoStore2 1, liveEntry demoStore2 0]
              = [''a'', ''A'']"
    by (simp add: liveEntry_def demoStore2_def demoStore1_def)
  show ?thesis using demoStore2_published sn pg nm by simp
qed

end
